theory Spec2Isabelle
  imports Main "HOL-Library.Word" "HOL-Library.Multiset"
begin

unbundle bit_operations_syntax

section \<open>LSN and NodeId primitives (utils.c)\<close>

text \<open>
  \<open>XLogRecPtr\<close> is an unsigned 64-bit log position; the order on words is the unsigned
  order the C comparison operators use.
\<close>

type_synonym XLogRecPtr = "64 word"
type_synonym byte = "8 word"

text \<open>
  \<open>NodeId\<close>: a 64-bit term and a \<open>pg_uuid_t\<close>, an array of 16 unsigned bytes.
  (\<open>term\<close> is a reserved word of the prover, hence the field name \<open>termv\<close>.)
\<close>

record NodeId =
  termv :: "64 word"
  uuid :: "byte list"

text \<open>
  The C library's \<open>memcmp(p, q, n)\<close>: the first \<open>n\<close> bytes are compared as unsigned
  chars; the result has the sign of the difference of the first pair that differs.
\<close>

fun memcmp_bytes :: "byte list \<Rightarrow> byte list \<Rightarrow> int" where
  "memcmp_bytes (a # as) (b # bs) = (if a = b then memcmp_bytes as bs else uint a - uint b)"
| "memcmp_bytes _ _ = 0"

definition memcmp :: "byte list \<Rightarrow> byte list \<Rightarrow> nat \<Rightarrow> int" where
  "memcmp p q n = memcmp_bytes (take n p) (take n q)"

definition sizeof_pg_uuid_t :: nat where
  "sizeof_pg_uuid_t = 16"

text \<open>
  \<open>CompareNodeId\<close> as utils.c has it. Both arguments of \<open>memcmp\<close> are \<open>&id1->uuid\<close>
  in the source, and so they are here.
\<close>

definition CompareNodeId :: "NodeId \<Rightarrow> NodeId \<Rightarrow> int" where
  "CompareNodeId id1 id2 =
     (if termv id1 < termv id2 then -1
      else if termv id1 > termv id2 then 1
      else memcmp (uuid id1) (uuid id1) sizeof_pg_uuid_t)"

text \<open>\<open>CompareLsn\<close>: the qsort comparator, larger positions first.\<close>

definition CompareLsn :: "XLogRecPtr \<Rightarrow> XLogRecPtr \<Rightarrow> int" where
  "CompareLsn lsn1 lsn2 = (if lsn1 > lsn2 then -1 else if lsn1 = lsn2 then 0 else 1)"

section \<open>Quorum position (safekeeper\_proxy.c)\<close>

text \<open>
  Modelled from the spec: \<open>qsort\<close> is the library sort, whose code is not among the
  sources; the spec calls its use here a descending sort. The model is an insertion sort
  driven by the comparator exactly as a C caller passes it: the element for which the
  comparator answers \<open>\<le> 0\<close> goes first.
\<close>

fun qsort_insert :: "('a \<Rightarrow> 'a \<Rightarrow> int) \<Rightarrow> 'a \<Rightarrow> 'a list \<Rightarrow> 'a list" where
  "qsort_insert cmp x [] = [x]"
| "qsort_insert cmp x (y # ys) =
     (if cmp x y \<le> 0 then x # y # ys else y # qsort_insert cmp x ys)"

definition qsort :: "('a \<Rightarrow> 'a \<Rightarrow> int) \<Rightarrow> 'a list \<Rightarrow> 'a list" where
  "qsort cmp xs = foldr (qsort_insert cmp) xs []"

text \<open>
  \<open>GetAcknowledgedWALPosition\<close> over the vector of the \<open>ackPos\<close> fields of the
  \<open>n_safekeepers\<close> sessions and the C int \<open>quorum\<close>: copy, sort with \<open>CompareLsn\<close>,
  read \<open>responses[n_safekeepers - quorum]\<close>. Only the first \<open>n_safekeepers\<close> slots of
  \<open>responses\<close> are initialised, so an index outside them has no defined value: \<open>None\<close>.
\<close>

definition GetAcknowledgedWALPosition :: "XLogRecPtr list \<Rightarrow> int \<Rightarrow> XLogRecPtr option" where
  "GetAcknowledgedWALPosition acks quorum =
     (let responses = qsort CompareLsn acks;
          idx = int (length acks) - quorum
      in if 0 \<le> idx \<and> idx < int (length acks) then Some (responses ! nat idx) else None)"

text \<open>The number of safekeepers whose \<open>ackPos\<close> has reached a position.\<close>

definition confirmed_by :: "XLogRecPtr list \<Rightarrow> XLogRecPtr \<Rightarrow> nat" where
  "confirmed_by acks lsn = length (filter (\<lambda>a. lsn \<le> a) acks)"

section \<open>Fatal outcomes\<close>

text \<open>
  \<open>Exit code\<close> is a call of \<open>exit(code)\<close>. \<open>Undefined\<close> is an access through a pointer
  that is null, freed or out of bounds: the C program has no defined behaviour from there.
\<close>

datatype fatal = Exit int | Undefined

section \<open>The re-streamer's send size (walsender.c)\<close>

text \<open>
  \<open>sendSize = Min((uint32)(flushLsn - startpos), MAX_SEND_SIZE)\<close>: the 64-bit difference
  is cast to \<open>uint32\<close> first, then \<open>Min\<close> (\<open>x < y ? x : y\<close>) is taken on 32 bits.
  \<open>MAX_SEND_SIZE\<close> is declared in a header that is not among the sources and is a
  parameter.
\<close>

definition WalSender_sendSize :: "32 word \<Rightarrow> XLogRecPtr \<Rightarrow> XLogRecPtr \<Rightarrow> 32 word" where
  "WalSender_sendSize MAX_SEND_SIZE flushLsn startpos =
     (let d = (ucast (flushLsn - startpos) :: 32 word)
      in if d < MAX_SEND_SIZE then d else MAX_SEND_SIZE)"

text \<open>
  The part of one iteration of the steady-state loop that reads and advances: \<open>file\<close> is
  what the open segment file holds from its current offset, \<open>read\<close> returns at most
  \<open>sendSize\<close> bytes of it, a short read leaves the loop (\<open>None\<close>, the jump to
  \<open>Epilogue\<close>); otherwise the payload is emitted and \<open>startpos\<close> advances by \<open>sendSize\<close>.
\<close>

definition WalSender_send ::
  "32 word \<Rightarrow> XLogRecPtr \<Rightarrow> XLogRecPtr \<Rightarrow> byte list \<Rightarrow> (byte list \<times> XLogRecPtr) option" where
  "WalSender_send MAX_SEND_SIZE flushLsn startpos file =
     (let sendSize = WalSender_sendSize MAX_SEND_SIZE flushLsn startpos;
          payload = take (unat sendSize) file
      in if length payload \<noteq> unat sendSize then None
         else Some (payload, startpos + ucast sendSize))"

section \<open>Command line of the proxy (main in safekeeper\_proxy.c)\<close>

text \<open>
  An element of \<open>argv\<close> after the program name, already split into option and argument:
  a short option \<open>-c\<close>, a long option \<open>--name\<close> (each with its argument, empty when it
  has none), or a word that is no option.
\<close>

datatype arg = Short char string | Long string string | Plain string

definition optstring :: string where
  "optstring = ''D:d:E:h:p:U:s:S:nwWvZ:''"

definition long_options :: "(string \<times> char) list" where
  "long_options =
     [(''help'', CHR ''?''), (''version'', CHR ''V''), (''dbname'', CHR ''d''),
      (''safekeepers'', CHR ''s''), (''username'', CHR ''U''), (''no-password'', CHR ''w''),
      (''password'', CHR ''W''), (''verbose'', CHR ''v'')]"

text \<open>
  Modelled from the spec: \<open>getopt_long\<close>, the option parser, is not among the sources and
  the spec only names the options. The model is the parser's contract on one option: a
  short option yields its letter when \<open>optstring\<close> lists the letter and \<open>?\<close> otherwise, a
  long option yields the value \<open>long_options\<close> gives its name and \<open>?\<close> when the table does
  not have it. The string and the table are those of the source.
\<close>

fun getopt_long :: "arg \<Rightarrow> char" where
  "getopt_long (Short c a) = (if c \<in> set optstring \<and> c \<noteq> CHR '':'' then c else CHR ''?'')"
| "getopt_long (Long n a) = (case map_of long_options n of Some c \<Rightarrow> c | None \<Rightarrow> CHR ''?'')"
| "getopt_long (Plain w) = CHR ''?''"

fun optarg :: "arg \<Rightarrow> string" where
  "optarg (Short c a) = a"
| "optarg (Long n a) = a"
| "optarg (Plain w) = w"

text \<open>
  The option loop. Only \<open>-s\<close> changes what the rest of \<open>main\<close> reads here; \<open>-d\<close>, \<open>-h\<close>,
  \<open>-p\<close>, \<open>-w\<close>, \<open>-W\<close> and \<open>-v\<close> set connection and logging options, and every other value
  of \<open>c\<close> reaches \<open>default:\<close>, which exits with status 1. The loop ends at the first word
  that is no option; words left over are "too many command-line arguments". \<open>atoi\<close> is a
  parameter. The result is \<open>safekeepersList\<close>, a null pointer (\<open>None\<close>) unless \<open>-s\<close> was
  given.
\<close>

fun option_loop :: "(string \<Rightarrow> int) \<Rightarrow> arg list \<Rightarrow> string option \<Rightarrow> fatal + string option" where
  "option_loop atoi [] sl = Inr sl"
| "option_loop atoi (Plain w # rest) sl = Inl (Exit 1)"
| "option_loop atoi (a # rest) sl =
     (let c = getopt_long a in
      if c = CHR ''d'' \<or> c = CHR ''h'' \<or> c = CHR ''w'' \<or> c = CHR ''W'' \<or> c = CHR ''v''
        then option_loop atoi rest sl
      else if c = CHR ''p''
        then (if atoi (optarg a) \<le> 0 then Inl (Exit 1) else option_loop atoi rest sl)
      else if c = CHR ''s'' then option_loop atoi rest (Some (optarg a))
      else Inl (Exit 1))"

text \<open>
  The loop over \<open>safekeepersList\<close>: \<open>strchr(host, ':')\<close> splits off the host, \<open>strchr(port,
  ',')\<close> the port; with no comma \<open>sep\<close> is null and the loop ends after this entry. The
  test \<open>n_safekeepers+1 >= MAX_SAFEKEEPERS\<close> comes before the entry is stored. The list
  of entries stored so far stands for \<open>safekeeper[0..n_safekeepers-1]\<close>.
  \<open>MAX_SAFEKEEPERS\<close> is declared in a header that is not among the sources and is a
  parameter.
\<close>

function parse_safekeepers ::
  "nat \<Rightarrow> string \<Rightarrow> (string \<times> string) list \<Rightarrow> fatal + (string \<times> string) list" where
  "parse_safekeepers MAX_SAFEKEEPERS host acc =
     (if host = [] then Inr acc
      else if CHR '':'' \<notin> set host then Inl (Exit 1)
      else
        let h = takeWhile (\<lambda>c. c \<noteq> CHR '':'') host;
            port = tl (dropWhile (\<lambda>c. c \<noteq> CHR '':'') host);
            p = takeWhile (\<lambda>c. c \<noteq> CHR '','') port
        in if length acc + 1 \<ge> MAX_SAFEKEEPERS then Inl (Exit 1)
           else if CHR '','' \<notin> set port then Inr (acc @ [(h, p)])
           else parse_safekeepers MAX_SAFEKEEPERS
                  (tl (dropWhile (\<lambda>c. c \<noteq> CHR '','') port)) (acc @ [(h, p)]))"
  by pat_completeness auto
termination
proof (relation "measure (\<lambda>(m, host, acc). length host)", goal_cases)
  case 1
  show ?case by simp
next
  case (2 m host acc h port p)
  have "length (tl (dropWhile (\<lambda>c. c \<noteq> CHR '','') port)) \<le> length (dropWhile (\<lambda>c. c \<noteq> CHR '','') port)"
    by simp
  also have "\<dots> \<le> length port"
    by (rule length_dropWhile_le)
  finally have a: "length (tl (dropWhile (\<lambda>c. c \<noteq> CHR '','') port)) \<le> length port" .
  have "dropWhile (\<lambda>c. c \<noteq> CHR '':'') host \<noteq> []"
    using 2 by (simp add: dropWhile_eq_Nil_conv)
  then have "length (tl (dropWhile (\<lambda>c. c \<noteq> CHR '':'') host)) < length (dropWhile (\<lambda>c. c \<noteq> CHR '':'') host)"
    by simp
  also have "\<dots> \<le> length host"
    by (rule length_dropWhile_le)
  finally have "length port < length host"
    using 2 by simp
  with a show ?case by simp
qed

declare parse_safekeepers.simps [simp del]

text \<open>
  The checks after the loop: at least one safekeeper, and the quorum. \<open>quorum\<close> is the
  file's static int, 0 unless something assigned it.
\<close>

definition check_quorum :: "int \<Rightarrow> int \<Rightarrow> fatal + int" where
  "check_quorum quorum n_safekeepers =
     (if n_safekeepers < 1 then Inl (Exit 1)
      else if quorum = 0 then Inr (n_safekeepers div 2 + 1)
      else if quorum < n_safekeepers div 2 + 1 \<or> quorum > n_safekeepers then Inl (Exit 1)
      else Inr quorum)"

text \<open>
  \<open>main\<close> up to the point where it connects to the primary: the early test of
  \<open>argv[1]\<close> for help and version, the option loop, the safekeeper list, the quorum.
  No option assigns \<open>quorum\<close>, so \<open>check_quorum\<close> gets the initial 0. The result is the
  quorum and the host and port of each safekeeper.
\<close>

definition main ::
  "(string \<Rightarrow> int) \<Rightarrow> nat \<Rightarrow> arg list \<Rightarrow> fatal + (int \<times> (string \<times> string) list)" where
  "main atoi MAX_SAFEKEEPERS argv =
     (if argv \<noteq> [] \<and> (hd argv = Long ''help'' [] \<or> hd argv = Short CHR ''?'' []
                       \<or> hd argv = Short CHR ''V'' [] \<or> hd argv = Long ''version'' [])
      then Inl (Exit 0)
      else case option_loop atoi argv None of
        Inl e \<Rightarrow> Inl e
      | Inr safekeepersList \<Rightarrow>
          (case parse_safekeepers MAX_SAFEKEEPERS (case safekeepersList of None \<Rightarrow> [] | Some l \<Rightarrow> l) [] of
             Inl e \<Rightarrow> Inl e
           | Inr sks \<Rightarrow>
               (case check_quorum 0 (int (length sks)) of
                  Inl e \<Rightarrow> Inl e
                | Inr q \<Rightarrow> Inr (q, sks))))"

section \<open>Byte order\<close>

text \<open>
  The object representation of a 64-bit value in the proxy's memory. The proxy reads a
  safekeeper's acknowledgement straight into the bytes of \<open>ackPos\<close>, so the model needs
  them; it takes the little-endian order of the x86 family (the first byte in memory is
  the least significant).
\<close>

definition le_bytes :: "64 word \<Rightarrow> byte list" where
  "le_bytes w = map (\<lambda>k. ucast (drop_bit (8 * k) w)) [0..<8]"

definition of_le_bytes :: "byte list \<Rightarrow> 64 word" where
  "of_le_bytes bs = foldr (\<lambda>b w. ucast b OR push_bit 8 w) bs 0"

text \<open>
  What \<open>recv(sock, (char*) &w + offs, ...)\<close> leaves in a 64-bit object \<open>w\<close> when it
  stores the bytes \<open>bs\<close>: the bytes before \<open>offs\<close> and after \<open>offs + length bs\<close> are kept.
\<close>

definition store_bytes :: "64 word \<Rightarrow> nat \<Rightarrow> byte list \<Rightarrow> 64 word" where
  "store_bytes w offs bs =
     (if bs = [] then w
      else of_le_bytes (take offs (le_bytes w) @ bs @ drop (offs + length bs) (le_bytes w)))"

text \<open>
  Modelled from the spec: \<open>fe_sendint64\<close> and \<open>fe_recvint64\<close> are the wire encoding of a
  64-bit integer; their code is not among the sources. The spec: all multi-byte integers
  are in network byte order (big-endian).
\<close>

definition fe_sendint64 :: "64 word \<Rightarrow> byte list" where
  "fe_sendint64 w = rev (le_bytes w)"

definition fe_recvint64 :: "byte list \<Rightarrow> 64 word" where
  "fe_recvint64 buf = of_le_bytes (rev (take 8 buf))"

section \<open>The proxy's data (safekeeper\_proxy.c)\<close>

text \<open>
  Modelled from the spec: the types of \<open>safekeeper.h\<close>, which is not among the sources,
  with the fields the proxy's code uses and the spec's data model lists.
\<close>

datatype SafekeeperState =
  SS_OFFLINE | SS_CONNECTING | SS_HANDSHAKE | SS_VOTE | SS_WAIT_VERDICT
  | SS_IDLE | SS_SEND_WAL | SS_RECV_ACK

record ServerInfo =
  protocolVersion :: "32 word"
  pgVersion :: "32 word"
  nodeId :: NodeId
  walEnd :: XLogRecPtr
  timeline :: "32 word"
  walSegSize :: "32 word"

record SafekeeperInfo =
  server :: ServerInfo

text \<open>
  A safekeeper session. \<open>sock\<close> is \<open>False\<close> for \<open>PGINVALID_SOCKET\<close>. \<open>currMsg\<close> is a
  pointer to a \<open>WalMessage\<close>: \<open>None\<close> is the null pointer, \<open>Some a\<close> the address \<open>a\<close>.
\<close>

record Safekeeper =
  sock :: bool
  state :: SafekeeperState
  asyncOffs :: nat
  info :: SafekeeperInfo
  ackPos :: XLogRecPtr
  currMsg :: "nat option"

text \<open>
  Modelled from the spec: the type of \<open>ackMask\<close> is declared in \<open>safekeeper.h\<close>; the spec
  has it as a bit set with one bit per safekeeper. The code builds its masks from the C
  int \<open>1\<close>, so the model uses 32-bit words; shifting the int \<open>1\<close> by more than 30 is
  undefined in C and is \<open>Undefined\<close> here. The \<open>next\<close> pointer is the order of the queue
  below.
\<close>

record WalMessage =
  data :: "byte list"
  msg_size :: nat
  walPos :: XLogRecPtr
  ackMask :: "32 word"

text \<open>What the proxy hands to the connection to the primary.\<close>

datatype primary_msg =
  START_REPLICATION "32 word" "32 word" "32 word"
  | Feedback XLogRecPtr "64 word" bool

text \<open>
  The file's static variables and the locals of \<open>BroadcastWalStream\<close>.
  \<open>n_safekeepers\<close> is the length of \<open>safekeeper\<close>. The heap holds every \<open>WalMessage\<close>
  allocated so far, at the address that is its index; a freed message is \<open>None\<close>.
  \<open>msgQueue\<close> lists the addresses from \<open>msgQueueHead\<close> to \<open>msgQueueTail\<close>. \<open>to_primary\<close>
  records, oldest first, the \<open>START_REPLICATION\<close> commands and the calls of
  \<open>SendFeedback\<close> with their arguments.
\<close>

record proxy =
  safekeeper :: "Safekeeper list"
  quorum :: int
  lastAckPos :: XLogRecPtr
  heap :: "WalMessage option list"
  msgQueue :: "nat list"
  serverInfo :: ServerInfo
  streaming :: bool
  n_votes :: int
  n_connected :: int
  maxNodeId :: NodeId
  to_primary :: "primary_msg list"

text \<open>
  Constants of headers that are not among the sources, as parameters: the layout of the
  WAL frame header and the sizes of the two handshake records.
\<close>

record layout =
  XLOG_HDR_SIZE :: nat
  XLOG_HDR_START_POS :: nat
  XLOG_HDR_END_POS :: nat
  sizeof_SafekeeperInfo :: nat
  sizeof_NodeId :: nat
  SK_PROTOCOL_VERSION :: "32 word"

text \<open>The \<open>ackPos\<close> fields of \<open>safekeeper[0..n_safekeepers-1]\<close>.\<close>

definition ackPos_all :: "proxy \<Rightarrow> XLogRecPtr list" where
  "ackPos_all s = map ackPos (safekeeper s)"

definition deref :: "WalMessage option list \<Rightarrow> nat option \<Rightarrow> WalMessage option" where
  "deref h p = (case p of None \<Rightarrow> None | Some a \<Rightarrow> if a < length h then h ! a else None)"

text \<open>The end position the proxy patches into a record: \<open>walPos + size - XLOG_HDR_SIZE\<close>.\<close>

definition msg_walEnd :: "layout \<Rightarrow> WalMessage \<Rightarrow> XLogRecPtr" where
  "msg_walEnd K m = walPos m + of_nat (msg_size m) - of_nat (XLOG_HDR_SIZE K)"

section \<open>Feedback to the primary\<close>

text \<open>The 34 bytes \<open>SendFeedback\<close> puts into \<open>replybuf\<close>; \<open>0x72\<close> is the character r.\<close>

definition InvalidXLogRecPtr :: XLogRecPtr where
  "InvalidXLogRecPtr = 0"

definition replybuf :: "XLogRecPtr \<Rightarrow> 64 word \<Rightarrow> bool \<Rightarrow> byte list" where
  "replybuf blockpos now replyRequested =
     [0x72] @ fe_sendint64 blockpos @ fe_sendint64 blockpos @ fe_sendint64 InvalidXLogRecPtr
     @ fe_sendint64 now @ [if replyRequested then 1 else 0]"

text \<open>
  The cleanup loop of \<open>HandleSafekeeperResponse\<close>: while the queue has a head whose
  \<open>ackMask\<close> equals \<open>(1 << n_safekeepers) - 1\<close>, unlink it and free it.
\<close>

fun cleanup :: "nat \<Rightarrow> WalMessage option list \<Rightarrow> nat list \<Rightarrow> fatal + (WalMessage option list \<times> nat list)" where
  "cleanup n h [] = Inr (h, [])"
| "cleanup n h (a # q) =
     (case deref h (Some a) of
        None \<Rightarrow> Inl Undefined
      | Some m \<Rightarrow>
          if n > 30 then Inl Undefined
          else if ackMask m = push_bit n 1 - 1 then cleanup n (h[a := None]) q
          else Inr (h, a # q))"

text \<open>
  \<open>HandleSafekeeperResponse\<close>. \<open>now\<close> is the clock and \<open>sent\<close> what \<open>SendFeedback\<close>
  returns. The result is the function's return value and the new state.
\<close>

definition HandleSafekeeperResponse :: "64 word \<Rightarrow> bool \<Rightarrow> proxy \<Rightarrow> fatal + (bool \<times> proxy)" where
  "HandleSafekeeperResponse now sent s =
     (case GetAcknowledgedWALPosition (ackPos_all s) (quorum s) of
        None \<Rightarrow> Inl Undefined
      | Some minQuorumLsn \<Rightarrow>
          let s1 = (if minQuorumLsn > lastAckPos s
                    then s\<lparr>lastAckPos := minQuorumLsn,
                           to_primary := to_primary s @ [Feedback minQuorumLsn now False]\<rparr>
                    else s)
          in if minQuorumLsn > lastAckPos s \<and> \<not> sent then Inr (False, s1)
             else (case cleanup (length (safekeeper s1)) (heap s1) (msgQueue s1) of
                     Inl e \<Rightarrow> Inl e
                   | Inr (h, q) \<Rightarrow> Inr (True, s1\<lparr>heap := h, msgQueue := q\<rparr>)))"

section \<open>Start of streaming\<close>

text \<open>
  Modelled from the spec: \<open>XLogSegmentOffset\<close> is a macro of a header that is not among
  the sources; the spec has the segment offset as the position modulo the segment size.
\<close>

definition XLogSegmentOffset :: "XLogRecPtr \<Rightarrow> 32 word \<Rightarrow> XLogRecPtr" where
  "XLogSegmentOffset xlogptr wal_segsz_bytes = xlogptr mod ucast wal_segsz_bytes"

text \<open>The position \<open>StartReplication\<close> computes before it builds the command.\<close>

definition StartReplication_startpos :: "proxy \<Rightarrow> XLogRecPtr option" where
  "StartReplication_startpos s =
     (case GetAcknowledgedWALPosition (ackPos_all s) (quorum s) of
        None \<Rightarrow> None
      | Some q \<Rightarrow>
          let startpos = (if q = 0 then walEnd (serverInfo s) else q)
          in Some (startpos - XLogSegmentOffset startpos (walSegSize (serverInfo s))))"

text \<open>
  \<open>StartReplication\<close>: the command carries the two 32-bit halves of the position and the
  timeline; \<open>copy_both\<close> says whether the primary answered with \<open>PGRES_COPY_BOTH\<close>.
\<close>

definition StartReplication :: "bool \<Rightarrow> proxy \<Rightarrow> fatal + (bool \<times> proxy)" where
  "StartReplication copy_both s =
     (case StartReplication_startpos s of
        None \<Rightarrow> Inl Undefined
      | Some startpos \<Rightarrow>
          Inr (copy_both,
               s\<lparr>to_primary := to_primary s @
                    [START_REPLICATION (ucast (drop_bit 32 startpos)) (ucast startpos)
                       (timeline (serverInfo s))]\<rparr>))"

text \<open>
  The spec's formula for the same position, for comparison: the maximum of the quorum
  position and the server's \<open>walEnd\<close>, rounded down to a segment boundary.
\<close>

definition spec_startpos :: "XLogRecPtr \<Rightarrow> XLogRecPtr \<Rightarrow> 32 word \<Rightarrow> XLogRecPtr" where
  "spec_startpos quorum_lsn server_walEnd segSize =
     (let startpos = max quorum_lsn server_walEnd
      in startpos - startpos mod ucast segSize)"

section \<open>Connections\<close>

text \<open>
  One attempt of \<open>ConnectSocketAsync\<close> as \<open>ResetConnection\<close> sees it: no socket, a
  socket whose connection is pending, or an established one together with the result of
  writing \<open>serverInfo\<close> to it.
\<close>

datatype conn_result = ConnFailed | ConnPending | ConnEstablished bool

text \<open>
  \<open>ResetConnection(i)\<close> on session \<open>i\<close>. It calls itself when the write to a fresh
  connection fails; the list holds the outcomes of the attempts in order, and an
  exhausted list counts as a failed attempt.
\<close>

fun ResetConnection :: "conn_result list \<Rightarrow> Safekeeper \<Rightarrow> Safekeeper" where
  "ResetConnection cs sk =
     (let sk1 = (if state sk \<noteq> SS_OFFLINE then sk\<lparr>sock := False, state := SS_OFFLINE\<rparr> else sk)
      in case cs of
           [] \<Rightarrow> sk1\<lparr>sock := False\<rparr>
         | c # rest \<Rightarrow>
             (case c of
                ConnFailed \<Rightarrow> sk1\<lparr>sock := False\<rparr>
              | ConnPending \<Rightarrow> sk1\<lparr>sock := True, state := SS_CONNECTING\<rparr>
              | ConnEstablished written \<Rightarrow>
                  if written then sk1\<lparr>sock := True, state := SS_HANDSHAKE, asyncOffs := 0\<rparr>
                  else ResetConnection rest (sk1\<lparr>sock := True\<rparr>)))"

declare ResetConnection.simps [simp del]

section \<open>The broadcast loop\<close>

text \<open>
  \<open>BroadcastMessage\<close>: every session in \<open>SS_IDLE\<close> gets the message through
  \<open>WriteSocketAsync\<close>, whose result for session \<open>i\<close> is \<open>write_rcs i\<close> (\<open>None\<close> for
  \<open>-1\<close>, otherwise the number of bytes written, at most the size). Iteration \<open>i\<close> of the
  loop touches \<open>safekeeper[i]\<close> only. No field but \<open>state\<close>, \<open>asyncOffs\<close> and what
  \<open>ResetConnection\<close> changes is assigned.
\<close>

definition BroadcastMessage ::
  "(nat \<Rightarrow> nat option) \<Rightarrow> (nat \<Rightarrow> conn_result list) \<Rightarrow> WalMessage \<Rightarrow> Safekeeper list \<Rightarrow> Safekeeper list" where
  "BroadcastMessage write_rcs reconnects msg sks =
     map (\<lambda>i. let sk = sks ! i in
            if state sk = SS_IDLE then
              (case write_rcs i of
                 None \<Rightarrow> ResetConnection (reconnects i) sk
               | Some n \<Rightarrow>
                   if min n (msg_size msg) = msg_size msg
                   then sk\<lparr>asyncOffs := 0, state := SS_RECV_ACK\<rparr>
                   else sk\<lparr>state := SS_SEND_WAL, asyncOffs := min n (msg_size msg)\<rparr>)
            else sk)
       [0..<length sks]"

text \<open>
  What \<open>PQgetCopyData\<close> returns: the end of the stream or an error (\<open>rawlen \<le> 0\<close>), or a
  buffer of \<open>rawlen\<close> bytes.
\<close>

datatype copy_data = CopyEnd | CopyRow "byte list"

text \<open>
  The branch of the loop for a readable primary. \<open>0x77\<close> is the character w. The source
  reads 8 bytes at \<open>XLOG_HDR_START_POS\<close> and writes 8 bytes at \<open>XLOG_HDR_END_POS\<close> with
  no check of \<open>rawlen\<close>; a buffer too short for that is \<open>Undefined\<close>. The new message gets
  the next free address, is appended to the queue with \<open>ackMask = 0\<close> and is broadcast.
  The two \<open>Assert\<close>s of the loop are no code in a build without assertion checking, the
  only build that compiles (the second one names a variable that is not declared).
\<close>

definition from_server ::
  "layout \<Rightarrow> copy_data \<Rightarrow> (nat \<Rightarrow> nat option) \<Rightarrow> (nat \<Rightarrow> conn_result list) \<Rightarrow> proxy \<Rightarrow> fatal + proxy" where
  "from_server K cd write_rcs reconnects s =
     (case cd of
        CopyEnd \<Rightarrow> Inr (s\<lparr>streaming := False\<rparr>)
      | CopyRow copybuf \<Rightarrow>
          if copybuf = [] then Inr (s\<lparr>streaming := False\<rparr>)
          else if hd copybuf = 0x77 then
            (if length copybuf < XLOG_HDR_START_POS K + 8 \<or> length copybuf < XLOG_HDR_END_POS K + 8
             then Inl Undefined
             else
               let pos = fe_recvint64 (drop (XLOG_HDR_START_POS K) copybuf);
                   e = pos + of_nat (length copybuf) - of_nat (XLOG_HDR_SIZE K);
                   buf = take (XLOG_HDR_END_POS K) copybuf @ fe_sendint64 e
                         @ drop (XLOG_HDR_END_POS K + 8) copybuf;
                   msg = \<lparr>data = buf, msg_size = length copybuf, walPos = pos, ackMask = 0\<rparr>
               in Inr (s\<lparr>heap := heap s @ [Some msg],
                         msgQueue := msgQueue s @ [length (heap s)],
                         safekeeper := BroadcastMessage write_rcs reconnects msg (safekeeper s)\<rparr>))
          else Inr s)"

text \<open>
  \<open>ReadSocketAsync(sock, buf, size)\<close> stores what arrives until \<open>size\<close> bytes are
  there, the socket would block or an error occurs. With \<open>arrived\<close> bytes on offer it
  returns \<open>size\<close> when they suffice, \<open>-1\<close> (\<open>None\<close>) when they do not and the read
  ended in an error, and their number otherwise. The bytes that arrived before an error
  are stored all the same.
\<close>

definition ReadSocketAsync :: "bool \<Rightarrow> nat \<Rightarrow> nat \<Rightarrow> nat option" where
  "ReadSocketAsync failed arrived size_wanted =
     (if arrived < size_wanted \<and> failed then None else Some (min arrived size_wanted))"

text \<open>
  What the environment answers while the loop visits one safekeeper: whether \<open>select\<close>
  reported its socket readable or writable, the result of \<open>getsockopt\<close>, of the blocking
  writes, of the read (whether it ended in an error; for a handshake record the number
  of bytes that arrived and what the record holds after the read, since its layout is in
  a header that is not among the sources; for the acknowledgement the bytes that
  arrived), of \<open>WriteSocketAsync\<close>, of the reconnection attempts, of \<open>PQexec\<close> and
  \<open>SendFeedback\<close>, and the clock.
\<close>

record peer_io =
  readable :: bool
  writable :: bool
  so_error :: bool
  info_written :: bool
  read_failed :: bool
  read_rc :: nat
  read_info :: SafekeeperInfo
  read_nodeId :: NodeId
  read_ack :: "byte list"
  write_rc :: "nat option"
  reconnect :: "conn_result list"
  vote_written :: "nat \<Rightarrow> bool"
  vote_reconnect :: "nat \<Rightarrow> conn_result list"
  copy_both :: bool
  feedback_sent :: bool
  timestamp :: "64 word"

text \<open>\<open>case SS_CONNECTING\<close>.\<close>

definition connecting :: "peer_io \<Rightarrow> nat \<Rightarrow> proxy \<Rightarrow> proxy" where
  "connecting io i s =
     (let sk = safekeeper s ! i in
      s\<lparr>safekeeper := (safekeeper s)
           [i := (if so_error io then sk\<lparr>sock := False, state := SS_OFFLINE\<rparr>
                  else if info_written io then sk\<lparr>state := SS_HANDSHAKE, asyncOffs := 0\<rparr>
                  else ResetConnection (reconnect io) sk)]\<rparr>)"

text \<open>
  The loop that sends \<open>maxNodeId\<close> to every session in \<open>SS_VOTE\<close>; iteration \<open>j\<close> touches
  \<open>safekeeper[j]\<close> only.
\<close>

definition vote_broadcast :: "peer_io \<Rightarrow> Safekeeper list \<Rightarrow> Safekeeper list" where
  "vote_broadcast io sks =
     map (\<lambda>j. let sk = sks ! j in
            if state sk = SS_VOTE then
              (if \<not> vote_written io j then ResetConnection (vote_reconnect io j) sk
               else sk\<lparr>asyncOffs := 0, state := SS_WAIT_VERDICT\<rparr>)
            else sk)
       [0..<length sks]"

text \<open>
  \<open>case SS_HANDSHAKE\<close>. \<open>asyncOffs\<close> and the sizes are natural numbers; the request
  \<open>sizeof(info) - asyncOffs\<close> is exact as long as \<open>asyncOffs\<close> does not exceed the size.
\<close>

definition handshake :: "layout \<Rightarrow> peer_io \<Rightarrow> nat \<Rightarrow> proxy \<Rightarrow> fatal + proxy" where
  "handshake K io i s =
     (let sk = safekeeper s ! i;
          wanted = sizeof_SafekeeperInfo K - asyncOffs sk;
          sk0 = sk\<lparr>info := read_info io\<rparr>
      in
      case ReadSocketAsync (read_failed io) (read_rc io) wanted of
        None \<Rightarrow> Inr (s\<lparr>safekeeper := (safekeeper s)[i := ResetConnection (reconnect io) sk0]\<rparr>)
      | Some rc \<Rightarrow>
          let sk1 = sk0\<lparr>asyncOffs := asyncOffs sk + rc\<rparr>
          in if asyncOffs sk1 \<noteq> sizeof_SafekeeperInfo K
             then Inr (s\<lparr>safekeeper := (safekeeper s)[i := sk1]\<rparr>)
             else if protocolVersion (server (info sk1)) \<noteq> SK_PROTOCOL_VERSION K
             then Inr (s\<lparr>safekeeper := (safekeeper s)[i := ResetConnection (reconnect io) sk1]\<rparr>)
             else
               let sk2 = sk1\<lparr>state := SS_VOTE, ackPos := walEnd (server (info sk1))\<rparr>;
                   m1 = (if CompareNodeId (nodeId (server (info sk2))) (maxNodeId s) > 0
                         then nodeId (server (info sk2)) else maxNodeId s);
                   nc = n_connected s + 1;
                   sks = (safekeeper s)[i := sk2]
               in if nc \<ge> quorum s
                  then Inr (s\<lparr>safekeeper := vote_broadcast io sks,
                              maxNodeId := (if nc = quorum s then m1\<lparr>termv := termv m1 + 1\<rparr> else m1),
                              n_connected := nc\<rparr>)
                  else Inr (s\<lparr>safekeeper := sks, maxNodeId := m1, n_connected := nc\<rparr>))"

text \<open>\<open>case SS_WAIT_VERDICT\<close>.\<close>

definition wait_verdict :: "layout \<Rightarrow> peer_io \<Rightarrow> nat \<Rightarrow> proxy \<Rightarrow> fatal + proxy" where
  "wait_verdict K io i s =
     (let sk = safekeeper s ! i;
          wanted = sizeof_NodeId K - asyncOffs sk;
          sk0 = sk\<lparr>info := (info sk)\<lparr>server := (server (info sk))\<lparr>nodeId := read_nodeId io\<rparr>\<rparr>\<rparr>
      in
      case ReadSocketAsync (read_failed io) (read_rc io) wanted of
        None \<Rightarrow> Inr (s\<lparr>safekeeper := (safekeeper s)[i := ResetConnection (reconnect io) sk0]\<rparr>)
      | Some rc \<Rightarrow>
          let sk1 = sk0\<lparr>asyncOffs := asyncOffs sk + rc\<rparr>
          in if asyncOffs sk1 \<noteq> sizeof_NodeId K
             then Inr (s\<lparr>safekeeper := (safekeeper s)[i := sk1]\<rparr>)
             else if CompareNodeId (nodeId (server (info sk1))) (maxNodeId s) \<noteq> 0
             then Inl (Exit 1)
             else
               let s1 = s\<lparr>safekeeper := (safekeeper s)[i := sk1\<lparr>state := SS_IDLE\<rparr>],
                          n_votes := n_votes s + 1\<rparr>
               in if n_votes s1 = quorum s1
                  then (case StartReplication (copy_both io) s1 of
                          Inl e \<Rightarrow> Inl e
                        | Inr (ok, s2) \<Rightarrow> if ok then Inr s2 else Inl (Exit 1))
                  else Inr s1)"

text \<open>
  \<open>case SS_RECV_ACK\<close>. The bytes received go into \<open>ackPos\<close> at \<open>asyncOffs\<close>. Once all 8
  are there, bit \<open>i\<close> is set in the \<open>ackMask\<close> of the message \<open>currMsg\<close> points to, with
  no test of the pointer, and \<open>HandleSafekeeperResponse\<close> runs.
\<close>

definition recv_ack :: "peer_io \<Rightarrow> nat \<Rightarrow> proxy \<Rightarrow> fatal + proxy" where
  "recv_ack io i s =
     (let sk = safekeeper s ! i;
          wanted = 8 - asyncOffs sk;
          sk0 = sk\<lparr>ackPos := store_bytes (ackPos sk) (asyncOffs sk) (take wanted (read_ack io))\<rparr>
      in
      case ReadSocketAsync (read_failed io) (length (read_ack io)) wanted of
        None \<Rightarrow> Inr (s\<lparr>safekeeper := (safekeeper s)[i := ResetConnection (reconnect io) sk0]\<rparr>)
      | Some rc \<Rightarrow>
          let sk1 = sk0\<lparr>asyncOffs := asyncOffs sk + rc\<rparr>
          in if asyncOffs sk1 \<noteq> 8
             then Inr (s\<lparr>safekeeper := (safekeeper s)[i := sk1]\<rparr>)
             else (case currMsg sk1 of
                     None \<Rightarrow> Inl Undefined
                   | Some a \<Rightarrow>
                       (case deref (heap s) (Some a) of
                          None \<Rightarrow> Inl Undefined
                        | Some m \<Rightarrow>
                            if i > 30 then Inl Undefined
                            else
                              let s1 = s\<lparr>heap := (heap s)[a := Some (m\<lparr>ackMask := ackMask m OR push_bit i 1\<rparr>)],
                                         safekeeper := (safekeeper s)[i := sk1\<lparr>state := SS_IDLE, asyncOffs := 0\<rparr>]\<rparr>
                              in (case HandleSafekeeperResponse (timestamp io) (feedback_sent io) s1 of
                                    Inl e \<Rightarrow> Inl e
                                  | Inr (ok, s2) \<Rightarrow>
                                      if ok then Inr s2 else Inr (s2\<lparr>streaming := False\<rparr>)))))"

text \<open>The branch for a writable socket; it reads \<open>currMsg\<close> with no test of the pointer.\<close>

definition send_wal :: "peer_io \<Rightarrow> nat \<Rightarrow> proxy \<Rightarrow> fatal + proxy" where
  "send_wal io i s =
     (let sk = safekeeper s ! i in
      if state sk \<noteq> SS_SEND_WAL then Inl (Exit 1)
      else (case deref (heap s) (currMsg sk) of
              None \<Rightarrow> Inl Undefined
            | Some m \<Rightarrow>
                (case write_rc io of
                   None \<Rightarrow> Inr (s\<lparr>safekeeper := (safekeeper s)[i := ResetConnection (reconnect io) sk]\<rparr>)
                 | Some n \<Rightarrow>
                     let sk1 = sk\<lparr>asyncOffs := asyncOffs sk + min n (msg_size m - asyncOffs sk)\<rparr>
                     in if asyncOffs sk1 = msg_size m
                        then Inr (s\<lparr>safekeeper := (safekeeper s)[i := sk1\<lparr>state := SS_RECV_ACK, asyncOffs := 0\<rparr>]\<rparr>)
                        else Inr (s\<lparr>safekeeper := (safekeeper s)[i := sk1]\<rparr>))))"

text \<open>The body of the loop over the safekeepers, for safekeeper \<open>i\<close>.\<close>

definition visit :: "layout \<Rightarrow> peer_io \<Rightarrow> nat \<Rightarrow> proxy \<Rightarrow> fatal + proxy" where
  "visit K io i s =
     (let sk = safekeeper s ! i in
      if \<not> sock sk then Inr s
      else if readable io then
        (case state sk of
           SS_CONNECTING \<Rightarrow> Inr (connecting io i s)
         | SS_HANDSHAKE \<Rightarrow> handshake K io i s
         | SS_WAIT_VERDICT \<Rightarrow> wait_verdict K io i s
         | SS_RECV_ACK \<Rightarrow> recv_ack io i s
         | _ \<Rightarrow> Inl (Exit 1))
      else if writable io then send_wal io i s
      else Inr s)"

fun visit_all :: "layout \<Rightarrow> (nat \<Rightarrow> peer_io) \<Rightarrow> nat list \<Rightarrow> proxy \<Rightarrow> fatal + proxy" where
  "visit_all K env [] s = Inr s"
| "visit_all K env (i # is) s =
     (case visit K (env i) i s of Inl e \<Rightarrow> Inl e | Inr s' \<Rightarrow> visit_all K env is s')"

text \<open>
  What one call of \<open>select\<close> leads to: a failure, the branch for the primary, or the loop
  over the safekeepers. The descriptor sets are not part of the state: which sockets
  \<open>select\<close> reports is an input.
\<close>

datatype event =
  SelectFailed
  | FromServer copy_data "nat \<Rightarrow> nat option" "nat \<Rightarrow> conn_result list"
  | FromSafekeepers "nat \<Rightarrow> peer_io"

definition iteration :: "layout \<Rightarrow> event \<Rightarrow> proxy \<Rightarrow> fatal + proxy" where
  "iteration K e s =
     (case e of
        SelectFailed \<Rightarrow> Inr s
      | FromServer cd write_rcs reconnects \<Rightarrow> from_server K cd write_rcs reconnects s
      | FromSafekeepers env \<Rightarrow> visit_all K env [0..<length (safekeeper s)] s)"

text \<open>
  The \<open>while\<close> loop of \<open>BroadcastWalStream\<close> over the events of a run. The loop ends when
  the primary has stopped streaming and the queue is empty, or when \<open>select\<close> fails; when
  the events run out the state is the one the loop waits in. (\<open>StopSafekeepers\<close>, which
  follows the loop, only closes sockets.)
\<close>

fun BroadcastWalStream :: "layout \<Rightarrow> event list \<Rightarrow> proxy \<Rightarrow> fatal + proxy" where
  "BroadcastWalStream K [] s = Inr s"
| "BroadcastWalStream K (e # es) s =
     (if \<not> (streaming s \<or> msgQueue s \<noteq> []) then Inr s
      else (case e of
              SelectFailed \<Rightarrow> Inr s
            | _ \<Rightarrow> (case iteration K e s of
                      Inl x \<Rightarrow> Inl x
                    | Inr s' \<Rightarrow> BroadcastWalStream K es s')))"

section \<open>Predicates on states\<close>

text \<open>The positions of the \<open>SendFeedback\<close> calls in a record of what went to the primary.\<close>

fun feedback_lsns :: "primary_msg list \<Rightarrow> XLogRecPtr list" where
  "feedback_lsns [] = []"
| "feedback_lsns (Feedback lsn t r # ms) = lsn # feedback_lsns ms"
| "feedback_lsns (START_REPLICATION hi lo tli # ms) = feedback_lsns ms"

text \<open>
  The positions sent so far are strictly increasing and none is above \<open>lastAckPos\<close>.
\<close>

definition feedback_increasing :: "proxy \<Rightarrow> bool" where
  "feedback_increasing s =
     (sorted_wrt (<) (feedback_lsns (to_primary s))
      \<and> list_all (\<lambda>l. l \<le> lastAckPos s) (feedback_lsns (to_primary s)))"

text \<open>
  The message at address \<open>a\<close> is in the queue, none of its \<open>ackMask\<close> bits is set and no
  session's \<open>currMsg\<close> points to it.
\<close>

definition unacked :: "nat \<Rightarrow> proxy \<Rightarrow> bool" where
  "unacked a s =
     (a \<in> set (msgQueue s)
      \<and> (case deref (heap s) (Some a) of None \<Rightarrow> False | Some m \<Rightarrow> ackMask m = 0)
      \<and> Some a \<notin> set (map currMsg (safekeeper s)))"

text \<open>
  The state in which \<open>main\<close> calls \<open>BroadcastWalStream\<close>: the statics are zero but for
  what \<open>main\<close> assigned (every session offline with no socket, the quorum, \<open>serverInfo\<close>),
  the two counters are 0 and \<open>maxNodeId\<close>, a local that is not initialised, is anything.
\<close>

definition initial_proxy :: "nat \<Rightarrow> int \<Rightarrow> ServerInfo \<Rightarrow> NodeId \<Rightarrow> proxy" where
  "initial_proxy n q si garbage =
     \<lparr>safekeeper = replicate n
        \<lparr>sock = False, state = SS_OFFLINE, asyncOffs = 0,
         info = \<lparr>server = \<lparr>protocolVersion = 0, pgVersion = 0,
                            nodeId = \<lparr>termv = 0, uuid = replicate 16 0\<rparr>,
                            walEnd = 0, timeline = 0, walSegSize = 0\<rparr>\<rparr>,
         ackPos = 0, currMsg = None\<rparr>,
      quorum = q, lastAckPos = 0, heap = [], msgQueue = [], serverInfo = si,
      streaming = True, n_votes = 0, n_connected = 0, maxNodeId = garbage, to_primary = []\<rparr>"

text \<open>The loop before the \<open>while\<close> loop: \<open>ResetConnection(i)\<close> for every session.\<close>

definition connect_all :: "(nat \<Rightarrow> conn_result list) \<Rightarrow> proxy \<Rightarrow> proxy" where
  "connect_all reconnects s =
     s\<lparr>safekeeper := map (\<lambda>i. ResetConnection (reconnects i) (safekeeper s ! i))
                        [0..<length (safekeeper s)]\<rparr>"


text \<open>
  What the precondition of the spec's invariant for the quorum position asks of the
  answers a session gets in one visit of the loop. A handshake record that completes in
  this visit with the expected protocol version carries a \<open>walEnd\<close> that is not below
  the session's \<open>ackPos\<close>; a read in \<open>SS_RECV_ACK\<close> delivers no byte, or the whole
  acknowledgement (all eight bytes, at offset 0) with a value that is not below
  \<open>ackPos\<close>. The bytes of an acknowledgement are in the host's order, taken as
  little-endian here.
\<close>

definition delivers_nondecreasing :: "layout \<Rightarrow> peer_io \<Rightarrow> Safekeeper \<Rightarrow> bool" where
  "delivers_nondecreasing K io sk =
     (if sock sk \<and> readable io then
        (case state sk of
           SS_HANDSHAKE \<Rightarrow>
             (case ReadSocketAsync (read_failed io) (read_rc io) (sizeof_SafekeeperInfo K - asyncOffs sk) of
                None \<Rightarrow> True
              | Some rc \<Rightarrow>
                  asyncOffs sk + rc = sizeof_SafekeeperInfo K
                  \<and> protocolVersion (server (read_info io)) = SK_PROTOCOL_VERSION K
                  \<longrightarrow> ackPos sk \<le> walEnd (server (read_info io)))
         | SS_RECV_ACK \<Rightarrow>
             read_ack io = []
             \<or> (asyncOffs sk = 0 \<and> 8 \<le> length (read_ack io)
                \<and> ackPos sk \<le> of_le_bytes (take 8 (read_ack io)))
         | _ \<Rightarrow> True)
      else True)"

text \<open>
  The same for the visits of one pass over the safekeepers and for the events of a run,
  each visit judged in the state in which the loop makes it.
\<close>

fun visits_nondecreasing :: "layout \<Rightarrow> (nat \<Rightarrow> peer_io) \<Rightarrow> nat list \<Rightarrow> proxy \<Rightarrow> bool" where
  "visits_nondecreasing K env [] s = True"
| "visits_nondecreasing K env (i # is) s =
     (delivers_nondecreasing K (env i) (safekeeper s ! i)
      \<and> (case visit K (env i) i s of Inl e \<Rightarrow> True | Inr s' \<Rightarrow> visits_nondecreasing K env is s'))"

fun run_nondecreasing :: "layout \<Rightarrow> event list \<Rightarrow> proxy \<Rightarrow> bool" where
  "run_nondecreasing K [] s = True"
| "run_nondecreasing K (e # es) s =
     (if \<not> (streaming s \<or> msgQueue s \<noteq> []) then True
      else (case e of
              SelectFailed \<Rightarrow> True
            | FromServer cd w r \<Rightarrow>
                (case iteration K e s of Inl x \<Rightarrow> True | Inr s' \<Rightarrow> run_nondecreasing K es s')
            | FromSafekeepers env \<Rightarrow>
                visits_nondecreasing K env [0..<length (safekeeper s)] s
                \<and> (case iteration K e s of Inl x \<Rightarrow> True | Inr s' \<Rightarrow> run_nondecreasing K es s')))"

section \<open>Example values\<close>

text \<open>
  Concrete values for the instances below: a header layout with the three 8-byte fields
  of a WAL frame after its type byte, a server record with 16 MiB segments, sessions
  (with a socket unless offline), proxy states and answers of the environment.
\<close>

definition example_layout :: layout where
  "example_layout = \<lparr>XLOG_HDR_SIZE = 25, XLOG_HDR_START_POS = 1, XLOG_HDR_END_POS = 9,
     sizeof_SafekeeperInfo = 64, sizeof_NodeId = 24, SK_PROTOCOL_VERSION = 1\<rparr>"

definition example_nodeId :: NodeId where
  "example_nodeId = \<lparr>termv = 1, uuid = [1,2,3,4,5,6,7,8,9,10,11,12,13,14,15,16]\<rparr>"

definition example_server :: ServerInfo where
  "example_server = \<lparr>protocolVersion = 1, pgVersion = 140000, nodeId = example_nodeId,
     walEnd = 0x5000000, timeline = 1, walSegSize = 0x1000000\<rparr>"

definition example_safekeeper :: "SafekeeperState \<Rightarrow> XLogRecPtr \<Rightarrow> nat option \<Rightarrow> Safekeeper" where
  "example_safekeeper st pos msg =
     \<lparr>sock = (st \<noteq> SS_OFFLINE), state = st, asyncOffs = 0, info = \<lparr>server = example_server\<rparr>,
      ackPos = pos, currMsg = msg\<rparr>"

definition example_proxy :: "Safekeeper list \<Rightarrow> int \<Rightarrow> WalMessage option list \<Rightarrow> nat list \<Rightarrow> proxy" where
  "example_proxy sks q h mq =
     \<lparr>safekeeper = sks, quorum = q, lastAckPos = 0, heap = h, msgQueue = mq,
      serverInfo = example_server, streaming = True, n_votes = q, n_connected = q,
      maxNodeId = example_nodeId, to_primary = []\<rparr>"

text \<open>A socket that \<open>select\<close> did not report, and one reported readable with some bytes.\<close>

definition example_io :: peer_io where
  "example_io = \<lparr>readable = False, writable = False, so_error = False, info_written = True,
     read_failed = False, read_rc = 0, read_info = \<lparr>server = example_server\<rparr>,
     read_nodeId = example_nodeId, read_ack = [], write_rc = Some 0, reconnect = [],
     vote_written = (\<lambda>j. True), vote_reconnect = (\<lambda>j. []),
     copy_both = True, feedback_sent = True, timestamp = 0\<rparr>"

definition example_read :: "byte list \<Rightarrow> peer_io" where
  "example_read bs = example_io\<lparr>readable := True, read_rc := length bs, read_ack := bs\<rparr>"

text \<open>
  A WAL frame of 25 header bytes and 4 bytes of payload that starts at position 100, and
  the message the proxy makes of it (end position \<open>100 + 29 - 25 = 104\<close>).
\<close>

definition example_frame :: "byte list" where
  "example_frame = [0x77, 0,0,0,0,0,0,0,100, 0,0,0,0,0,0,0,0, 0,0,0,0,0,0,0,0, 1,2,3,4]"

definition example_message :: "32 word \<Rightarrow> WalMessage" where
  "example_message bits =
     \<lparr>data = [0x77, 0,0,0,0,0,0,0,100, 0,0,0,0,0,0,0,104, 0,0,0,0,0,0,0,0, 1,2,3,4],
      msg_size = 29, walPos = 100, ackMask = bits\<rparr>"

text \<open>
  For runs from the initial state: the state after the connection loop when every
  connection is established at once and \<open>serverInfo\<close> is written (an uninitialised
  \<open>maxNodeId\<close> of term 0), a completed handshake record with a given \<open>walEnd\<close>, a
  verdict that returns the proxy's candidate of term 2, and a read that fails, after
  which the connection is established anew.
\<close>

definition example_initial :: "nat \<Rightarrow> int \<Rightarrow> proxy" where
  "example_initial n q =
     connect_all (\<lambda>i. [ConnEstablished True])
       (initial_proxy n q example_server (example_nodeId\<lparr>termv := 0\<rparr>))"

definition example_handshake :: "XLogRecPtr \<Rightarrow> peer_io" where
  "example_handshake pos =
     example_io\<lparr>readable := True, read_rc := 64,
                read_info := \<lparr>server = example_server\<lparr>walEnd := pos\<rparr>\<rparr>\<rparr>"

definition example_verdict :: peer_io where
  "example_verdict =
     example_io\<lparr>readable := True, read_rc := 24, read_nodeId := example_nodeId\<lparr>termv := 2\<rparr>\<rparr>"

definition example_lost :: peer_io where
  "example_lost =
     example_io\<lparr>readable := True, read_failed := True, reconnect := [ConnEstablished True]\<rparr>"

section \<open>Properties of the sort and of the quorum position\<close>

lemma mset_qsort_insert: "mset (qsort_insert cmp x ys) = add_mset x (mset ys)"
  by (induction ys) auto

lemma mset_qsort: "mset (qsort cmp xs) = mset xs"
  by (induction xs) (auto simp: qsort_def mset_qsort_insert)

lemma length_qsort: "length (qsort cmp xs) = length xs"
  using mset_qsort [of cmp xs] by (metis size_mset)

lemma set_qsort_insert: "set (qsort_insert cmp x ys) = insert x (set ys)"
  by (induction ys) auto

lemma sorted_qsort_insert_CompareLsn:
  "sorted_wrt (\<lambda>a b. b \<le> a) ys \<Longrightarrow> sorted_wrt (\<lambda>a b. b \<le> a) (qsort_insert CompareLsn x ys)"
  by (induction ys) (auto simp: CompareLsn_def set_qsort_insert split: if_splits)

lemma sorted_qsort_CompareLsn: "sorted_wrt (\<lambda>a b. b \<le> a) (qsort CompareLsn xs)"
  by (induction xs) (auto simp: qsort_def sorted_qsort_insert_CompareLsn)

lemma qsort_CompareLsn_eq: "qsort CompareLsn xs = rev (sort xs)"
proof -
  have "sorted (rev (qsort CompareLsn xs))"
    using sorted_qsort_CompareLsn [of xs] by (simp add: sorted_wrt_rev)
  moreover have "mset (rev (qsort CompareLsn xs)) = mset xs"
    by (simp add: mset_qsort)
  ultimately have "rev (qsort CompareLsn xs) = sort xs"
    by (metis properties_for_sort)
  then show ?thesis by (metis rev_rev_ident)
qed

lemma memcmp_bytes_self: "memcmp_bytes xs xs = 0"
  by (induction xs) auto

lemma CompareNodeId_equal_terms: "termv id1 = termv id2 \<Longrightarrow> CompareNodeId id1 id2 = 0"
  by (simp add: CompareNodeId_def memcmp_def memcmp_bytes_self)


lemma GetAcknowledgedWALPosition_eq:
  "1 \<le> q \<Longrightarrow> q \<le> int (length acks) \<Longrightarrow>
   GetAcknowledgedWALPosition acks q = Some (rev (sort acks) ! nat (int (length acks) - q))"
  by (simp add: GetAcknowledgedWALPosition_def qsort_CompareLsn_eq)

lemma filter_length_mset: "mset xs = mset ys \<Longrightarrow> length (filter P xs) = length (filter P ys)"
  by (metis mset_filter size_mset)

lemma confirmed_by_qsort: "confirmed_by (qsort CompareLsn xs) v = confirmed_by xs v"
  unfolding confirmed_by_def by (rule filter_length_mset) (simp add: mset_qsort)

lemma desc_count_ge:
  assumes "sorted_wrt (\<lambda>a b. b \<le> a) D" "k < length D" "v \<le> (D ! k :: 'a :: linorder)"
  shows "k < length (filter (\<lambda>x. v \<le> x) D)"
proof -
  have "\<forall>x \<in> set (take (Suc k) D). v \<le> x"
  proof
    fix x assume "x \<in> set (take (Suc k) D)"
    then obtain j where j: "j < Suc k" "j < length D" "x = D ! j"
      by (auto simp: in_set_conv_nth)
    then have "D ! k \<le> D ! j"
      using assms(1,2) by (cases "j = k") (auto simp: sorted_wrt_iff_nth_less)
    with assms(3) j show "v \<le> x" by simp
  qed
  then have "filter (\<lambda>x. v \<le> x) (take (Suc k) D) = take (Suc k) D"
    by (simp add: filter_id_conv)
  moreover have "filter (\<lambda>x. v \<le> x) D = filter (\<lambda>x. v \<le> x) (take (Suc k) D) @ filter (\<lambda>x. v \<le> x) (drop (Suc k) D)"
    by (metis append_take_drop_id filter_append)
  ultimately have "length (filter (\<lambda>x. v \<le> x) D) \<ge> length (take (Suc k) D)"
    by simp
  with assms(2) show ?thesis by simp
qed

lemma desc_nth_ge:
  assumes "sorted_wrt (\<lambda>a b. b \<le> a) D" "k < length (filter (\<lambda>x. v \<le> x) D)"
  shows "v \<le> (D ! k :: 'a :: linorder)"
proof (rule ccontr)
  assume n: "\<not> v \<le> D ! k"
  have kl: "k < length D"
    by (rule less_le_trans [OF assms(2) length_filter_le])
  have "\<forall>x \<in> set (drop k D). \<not> v \<le> x"
  proof
    fix x assume "x \<in> set (drop k D)"
    then obtain j where j: "k \<le> j" "j < length D" "x = D ! j"
      by (auto simp: in_set_conv_nth) (metis le_add1 add.commute less_diff_conv)
    then have "D ! j \<le> D ! k"
      using assms(1) by (cases "j = k") (auto simp: sorted_wrt_iff_nth_less)
    with n j show "\<not> v \<le> x" by auto
  qed
  then have "filter (\<lambda>x. v \<le> x) (drop k D) = []"
    by (simp add: filter_empty_conv)
  moreover have "filter (\<lambda>x. v \<le> x) D = filter (\<lambda>x. v \<le> x) (take k D) @ filter (\<lambda>x. v \<le> x) (drop k D)"
    by (metis append_take_drop_id filter_append)
  ultimately have "length (filter (\<lambda>x. v \<le> x) D) = length (filter (\<lambda>x. v \<le> x) (take k D))"
    by simp
  also have "\<dots> \<le> length (take k D)"
    by (rule length_filter_le)
  finally have "length (filter (\<lambda>x. v \<le> x) D) \<le> length (take k D)" .
  with assms(2) show False by simp
qed

lemma confirmed_by_mono:
  "list_all2 (\<le>) xs ys \<Longrightarrow> confirmed_by xs v \<le> confirmed_by ys v"
  unfolding confirmed_by_def
  by (induction xs ys rule: list_all2_induct) auto

lemma GetAcknowledgedWALPosition_confirmed:
  assumes "GetAcknowledgedWALPosition acks q = Some v"
  shows "nat (int (length acks) - q) < confirmed_by acks v"
proof -
  let ?k = "nat (int (length acks) - q)"
  from assms have k: "?k < length acks" and v: "v = qsort CompareLsn acks ! ?k"
    by (auto simp: GetAcknowledgedWALPosition_def Let_def split: if_splits)
  have "?k < length (filter (\<lambda>x. v \<le> x) (qsort CompareLsn acks))"
    using k v by (intro desc_count_ge) (simp_all add: sorted_qsort_CompareLsn length_qsort)
  then show ?thesis
    using confirmed_by_qsort [of acks v] by (simp add: confirmed_by_def)
qed

lemma GetAcknowledgedWALPosition_mono:
  assumes "list_all2 (\<le>) xs ys"
      and "GetAcknowledgedWALPosition xs q = Some v"
  shows "\<exists>v'. GetAcknowledgedWALPosition ys q = Some v' \<and> v \<le> v'"
proof -
  let ?k = "nat (int (length xs) - q)"
  have len: "length ys = length xs"
    using assms(1) by (simp add: list_all2_lengthD)
  from assms(2) have k: "0 \<le> int (length xs) - q" "?k < length xs"
    by (auto simp: GetAcknowledgedWALPosition_def Let_def split: if_splits)
  have "?k < confirmed_by xs v"
    by (rule GetAcknowledgedWALPosition_confirmed [OF assms(2)])
  also have "\<dots> \<le> confirmed_by ys v"
    by (rule confirmed_by_mono [OF assms(1)])
  finally have "?k < length (filter (\<lambda>x. v \<le> x) (qsort CompareLsn ys))"
    using confirmed_by_qsort [of ys v] by (simp add: confirmed_by_def)
  then have "v \<le> qsort CompareLsn ys ! ?k"
    by (intro desc_nth_ge) (simp_all add: sorted_qsort_CompareLsn)
  moreover have "GetAcknowledgedWALPosition ys q = Some (qsort CompareLsn ys ! ?k)"
    using k len by (simp add: GetAcknowledgedWALPosition_def Let_def)
  ultimately show ?thesis by simp
qed


section \<open>Properties of the re-streamer's send size\<close>

lemma WalSender_sendSize_small:
  assumes "startpos \<le> flushLsn" and "uint flushLsn - uint startpos < 2 ^ 32"
  shows "uint (WalSender_sendSize M flushLsn startpos) = min (uint flushLsn - uint startpos) (uint M)"
proof -
  have d: "uint (flushLsn - startpos) = uint flushLsn - uint startpos"
    using assms(1) by (simp add: uint_minus_simple_alt)
  have "0 \<le> uint flushLsn - uint startpos"
    using assms(1) by (simp add: word_le_def)
  then have "uint (ucast (flushLsn - startpos) :: 32 word) = uint (flushLsn - startpos)"
    using assms(2) d by (simp add: unsigned_ucast_eq take_bit_int_eq_self)
  then show ?thesis
    using d by (auto simp: WalSender_sendSize_def Let_def word_less_def min_def)
qed

section \<open>Properties of the command line\<close>

lemma parse_safekeepers_length:
  "parse_safekeepers M host acc = Inr sks \<Longrightarrow> sks = acc \<or> length sks < M"
proof (induction M host acc rule: parse_safekeepers.induct)
  case (1 M host acc)
  from "1.prems"(1) have eq:
    "(if host = [] then Inr acc
      else if CHR '':'' \<notin> set host then Inl (Exit 1)
      else
        let h = takeWhile (\<lambda>c. c \<noteq> CHR '':'') host;
            port = tl (dropWhile (\<lambda>c. c \<noteq> CHR '':'') host);
            p = takeWhile (\<lambda>c. c \<noteq> CHR '','') port
        in if length acc + 1 \<ge> M then Inl (Exit 1)
           else if CHR '','' \<notin> set port then Inr (acc @ [(h, p)])
           else parse_safekeepers M
                  (tl (dropWhile (\<lambda>c. c \<noteq> CHR '','') port)) (acc @ [(h, p)])) = Inr sks"
    by (simp only: parse_safekeepers.simps [of M host acc])
  show ?case
    using eq "1.IH"
    by (auto simp: Let_def split: if_splits)
qed

lemma check_quorum_Inr:
  "check_quorum 0 n = Inr q \<Longrightarrow> 1 \<le> n \<and> q = n div 2 + 1"
  by (auto simp: check_quorum_def split: if_splits)

lemma main_proceeds:
  assumes "main atoi M argv = Inr (q, sks)"
  shows "q = int (length sks) div 2 + 1 \<and> 1 \<le> length sks \<and> length sks < M"
proof -
  from assms obtain host where p: "parse_safekeepers M host [] = Inr sks"
    and c: "check_quorum 0 (int (length sks)) = Inr q"
    by (auto simp: main_def split: if_splits sum.splits)
  from c have n: "1 \<le> int (length sks)" and q: "q = int (length sks) div 2 + 1"
    using check_quorum_Inr by blast+
  from n have "sks \<noteq> []" by auto
  with parse_safekeepers_length [OF p] have "length sks < M" by simp
  with n q show ?thesis by simp
qed

section \<open>Properties of the byte encodings\<close>

lemma byte_split: "ucast (ucast x :: 8 word) OR push_bit 8 (drop_bit 8 x) = (x :: 64 word)"
proof (rule bit_word_eqI)
  fix n
  assume n: "n < LENGTH(64)"
  show "bit (ucast (ucast x :: 8 word) OR push_bit 8 (drop_bit 8 x)) n = bit x n"
  proof (cases "n < 8")
    case True
    then show ?thesis by (auto simp: bit_simps)
  next
    case False
    then have "8 + (n - 8) = n" by simp
    with False n show ?thesis by (auto simp: bit_simps)
  qed
qed

lemma of_le_bytes_from:
  "k \<le> 8 \<Longrightarrow> of_le_bytes (map (\<lambda>j. ucast (drop_bit (8 * j) w)) [8 - k..<8]) = drop_bit (8 * (8 - k)) w"
proof (induction k)
  case 0
  show ?case by (simp add: of_le_bytes_def drop_bit_word_beyond)
next
  case (Suc k)
  then have k: "k < 8" by simp
  then have u: "[8 - Suc k..<8] = (8 - Suc k) # [8 - k..<8]"
  proof -
    have "Suc (8 - Suc k) = 8 - k" using k by simp
    moreover have "8 - Suc k < 8" by simp
    ultimately show ?thesis by (metis upt_conv_Cons)
  qed
  have d: "drop_bit 8 (drop_bit (8 * (8 - Suc k)) w) = drop_bit (8 * (8 - k)) w"
  proof -
    have "8 + 8 * (8 - Suc k) = 8 * (8 - k)" using k by simp
    then show ?thesis by (simp add: drop_bit_drop_bit add.commute)
  qed
  have "of_le_bytes (map (\<lambda>j. ucast (drop_bit (8 * j) w)) [8 - Suc k..<8])
      = ucast (ucast (drop_bit (8 * (8 - Suc k)) w) :: 8 word)
        OR push_bit 8 (of_le_bytes (map (\<lambda>j. ucast (drop_bit (8 * j) w)) [8 - k..<8]))"
    unfolding u by (simp add: of_le_bytes_def)
  also have "\<dots> = ucast (ucast (drop_bit (8 * (8 - Suc k)) w) :: 8 word)
        OR push_bit 8 (drop_bit 8 (drop_bit (8 * (8 - Suc k)) w))"
    using Suc k d by simp
  also have "\<dots> = drop_bit (8 * (8 - Suc k)) w"
    by (rule byte_split)
  finally show ?case .
qed

lemma of_le_bytes_le_bytes: "of_le_bytes (le_bytes w) = w"
  using of_le_bytes_from [of 8 w] by (simp add: le_bytes_def)


lemma length_le_bytes [simp]: "length (le_bytes w) = 8"
  by (simp add: le_bytes_def)

lemma fe_recvint64_fe_sendint64: "fe_recvint64 (fe_sendint64 w @ rest) = w"
  by (simp add: fe_recvint64_def fe_sendint64_def of_le_bytes_le_bytes)

lemma store_bytes_whole: "length bs = 8 \<Longrightarrow> store_bytes w 0 bs = of_le_bytes bs"
  by (auto simp: store_bytes_def of_le_bytes_def)

section \<open>What the loop leaves unchanged\<close>

lemma map_update_same: "f y = f (xs ! i) \<Longrightarrow> map f (xs[i := y]) = map f xs"
  by (metis list_update_beyond list_update_id map_update nth_map not_le)

lemma ResetConnection_currMsg [simp]: "currMsg (ResetConnection cs sk) = currMsg sk"
  by (induction cs sk rule: ResetConnection.induct)
     (subst ResetConnection.simps, auto simp: Let_def split: list.splits conn_result.splits)

lemma ResetConnection_ackPos [simp]: "ackPos (ResetConnection cs sk) = ackPos sk"
  by (induction cs sk rule: ResetConnection.induct)
     (subst ResetConnection.simps, auto simp: Let_def split: list.splits conn_result.splits)

lemma ResetConnection_state: "state (ResetConnection cs sk) \<in> {SS_OFFLINE, SS_CONNECTING, SS_HANDSHAKE}"
proof (induction cs arbitrary: sk)
  case Nil
  show ?case by (subst ResetConnection.simps) (simp add: Let_def)
next
  case (Cons c cs)
  show ?case
    using Cons.IH [of "sk\<lparr>sock := True\<rparr>"] Cons.IH [of "sk\<lparr>sock := False, state := SS_OFFLINE, sock := True\<rparr>"]
    by (subst ResetConnection.simps) (auto simp: Let_def split: conn_result.splits)
qed

lemma length_BroadcastMessage [simp]: "length (BroadcastMessage w r m sks) = length sks"
  by (simp add: BroadcastMessage_def)

lemma currMsg_BroadcastMessage [simp]: "map currMsg (BroadcastMessage w r m sks) = map currMsg sks"
  by (rule nth_equalityI) (auto simp: BroadcastMessage_def Let_def split: option.splits)

lemma ackPos_BroadcastMessage [simp]: "map ackPos (BroadcastMessage w r m sks) = map ackPos sks"
  by (rule nth_equalityI) (auto simp: BroadcastMessage_def Let_def split: option.splits)

lemma length_vote_broadcast [simp]: "length (vote_broadcast io sks) = length sks"
  by (simp add: vote_broadcast_def)

lemma currMsg_vote_broadcast [simp]: "map currMsg (vote_broadcast io sks) = map currMsg sks"
  by (rule nth_equalityI) (auto simp: vote_broadcast_def Let_def)

lemma ackPos_vote_broadcast [simp]: "map ackPos (vote_broadcast io sks) = map ackPos sks"
  by (rule nth_equalityI) (auto simp: vote_broadcast_def Let_def)

lemma HandleSafekeeperResponse_safekeeper:
  "HandleSafekeeperResponse now sent s = Inr (ok, s') \<Longrightarrow> safekeeper s' = safekeeper s \<and> quorum s' = quorum s"
  by (auto simp: HandleSafekeeperResponse_def Let_def split: option.splits if_splits sum.splits prod.splits)

lemma StartReplication_safekeeper:
  "StartReplication cb s = Inr (ok, s') \<Longrightarrow> safekeeper s' = safekeeper s \<and> quorum s' = quorum s
     \<and> heap s' = heap s \<and> msgQueue s' = msgQueue s \<and> lastAckPos s' = lastAckPos s"
  by (auto simp: StartReplication_def Let_def split: option.splits)

lemma from_server_currMsg:
  "from_server K cd w r s = Inr s' \<Longrightarrow> map currMsg (safekeeper s') = map currMsg (safekeeper s) \<and> quorum s' = quorum s"
  by (auto simp: from_server_def Let_def split: copy_data.splits if_splits)

lemma connecting_currMsg:
  "map currMsg (safekeeper (connecting io i s)) = map currMsg (safekeeper s) \<and> quorum (connecting io i s) = quorum s"
  by (auto simp: connecting_def Let_def map_update_same)

lemma handshake_currMsg:
  "handshake K io i s = Inr s' \<Longrightarrow> map currMsg (safekeeper s') = map currMsg (safekeeper s) \<and> quorum s' = quorum s"
  by (auto simp: handshake_def Let_def map_update_same split: option.splits if_splits)

lemma wait_verdict_currMsg:
  "wait_verdict K io i s = Inr s' \<Longrightarrow> map currMsg (safekeeper s') = map currMsg (safekeeper s) \<and> quorum s' = quorum s"
  by (auto simp: wait_verdict_def Let_def map_update_same split: option.splits if_splits sum.splits prod.splits dest!: StartReplication_safekeeper)

lemma recv_ack_currMsg:
  "recv_ack io i s = Inr s' \<Longrightarrow> map currMsg (safekeeper s') = map currMsg (safekeeper s) \<and> quorum s' = quorum s"
  by (auto simp: recv_ack_def Let_def map_update_same split: option.splits if_splits sum.splits prod.splits dest!: HandleSafekeeperResponse_safekeeper)

lemma send_wal_currMsg:
  "send_wal io i s = Inr s' \<Longrightarrow> map currMsg (safekeeper s') = map currMsg (safekeeper s) \<and> quorum s' = quorum s"
  by (auto simp: send_wal_def Let_def map_update_same split: option.splits if_splits)

lemma visit_currMsg:
  "visit K io i s = Inr s' \<Longrightarrow> map currMsg (safekeeper s') = map currMsg (safekeeper s) \<and> quorum s' = quorum s"
  by (auto simp: visit_def Let_def connecting_currMsg split: if_splits SafekeeperState.splits
      dest: handshake_currMsg wait_verdict_currMsg recv_ack_currMsg send_wal_currMsg)

lemma visit_all_currMsg:
  "visit_all K env is s = Inr s' \<Longrightarrow> map currMsg (safekeeper s') = map currMsg (safekeeper s) \<and> quorum s' = quorum s"
  by (induction "is" arbitrary: s) (auto split: sum.splits dest!: visit_currMsg)

lemma iteration_currMsg:
  "iteration K e s = Inr s' \<Longrightarrow> map currMsg (safekeeper s') = map currMsg (safekeeper s) \<and> quorum s' = quorum s"
  by (auto simp: iteration_def split: event.splits dest: from_server_currMsg visit_all_currMsg)


section \<open>Unfolding the examples\<close>

lemma le_bytes_unfold:
  "le_bytes w = [ucast w, ucast (drop_bit 8 w), ucast (drop_bit 16 w), ucast (drop_bit 24 w),
     ucast (drop_bit 32 w), ucast (drop_bit 40 w), ucast (drop_bit 48 w), ucast (drop_bit 56 w)]"
  by (simp add: le_bytes_def upt_rec)

lemmas example_defs = example_layout_def example_proxy_def example_safekeeper_def example_io_def
  example_read_def example_frame_def example_message_def example_server_def example_nodeId_def

lemmas run_defs = example_initial_def example_handshake_def example_verdict_def example_lost_def
      connect_all_def initial_proxy_def
      ResetConnection.simps iteration_def visit_def handshake_def wait_verdict_def vote_broadcast_def
      ReadSocketAsync_def StartReplication_def StartReplication_startpos_def XLogSegmentOffset_def
      GetAcknowledgedWALPosition_def qsort_def CompareLsn_def CompareNodeId_def memcmp_def
      sizeof_pg_uuid_t_def ackPos_all_def
      from_server_def BroadcastMessage_def fe_recvint64_def fe_sendint64_def of_le_bytes_def le_bytes_unfold
      upt_rec Let_def example_defs

section \<open>Feedback is strictly increasing\<close>

lemma feedback_lsns_append: "feedback_lsns (xs @ ys) = feedback_lsns xs @ feedback_lsns ys"
  by (induction xs rule: feedback_lsns.induct) auto

lemma length_fe_sendint64 [simp]: "length (fe_sendint64 w) = 8"
  by (simp add: fe_sendint64_def)

lemma fe_recvint64_drop:
  "length pre = n \<Longrightarrow> fe_recvint64 (drop n (pre @ fe_sendint64 w @ rest)) = w"
  by (simp add: fe_recvint64_fe_sendint64)

lemma replybuf_fields:
  "length (replybuf lsn now r) = 34 \<and> hd (replybuf lsn now r) = 0x72
   \<and> fe_recvint64 (drop 1 (replybuf lsn now r)) = lsn
   \<and> fe_recvint64 (drop 9 (replybuf lsn now r)) = lsn
   \<and> fe_recvint64 (drop 17 (replybuf lsn now r)) = InvalidXLogRecPtr
   \<and> fe_recvint64 (drop 25 (replybuf lsn now r)) = now
   \<and> last (replybuf lsn now r) = (if r then 1 else 0)"
proof -
  have a: "replybuf lsn now r = [0x72] @ fe_sendint64 lsn @ (fe_sendint64 lsn @ fe_sendint64 InvalidXLogRecPtr @ fe_sendint64 now @ [if r then 1 else 0])"
    by (simp add: replybuf_def)
  have b: "replybuf lsn now r = ([0x72] @ fe_sendint64 lsn) @ fe_sendint64 lsn @ (fe_sendint64 InvalidXLogRecPtr @ fe_sendint64 now @ [if r then 1 else 0])"
    by (simp add: replybuf_def)
  have c: "replybuf lsn now r = ([0x72] @ fe_sendint64 lsn @ fe_sendint64 lsn) @ fe_sendint64 InvalidXLogRecPtr @ (fe_sendint64 now @ [if r then 1 else 0])"
    by (simp add: replybuf_def)
  have d: "replybuf lsn now r = ([0x72] @ fe_sendint64 lsn @ fe_sendint64 lsn @ fe_sendint64 InvalidXLogRecPtr) @ fe_sendint64 now @ [if r then 1 else 0]"
    by (simp add: replybuf_def)
  have 1: "fe_recvint64 (drop 1 (replybuf lsn now r)) = lsn"
    unfolding a by (rule fe_recvint64_drop) simp
  have 2: "fe_recvint64 (drop 9 (replybuf lsn now r)) = lsn"
    unfolding b by (rule fe_recvint64_drop) simp
  have 3: "fe_recvint64 (drop 17 (replybuf lsn now r)) = InvalidXLogRecPtr"
    unfolding c by (rule fe_recvint64_drop) simp
  have 4: "fe_recvint64 (drop 25 (replybuf lsn now r)) = now"
    unfolding d by (rule fe_recvint64_drop) simp
  have 5: "length (replybuf lsn now r) = 34" "hd (replybuf lsn now r) = 0x72"
    "last (replybuf lsn now r) = (if r then 1 else 0)"
    by (simp_all add: replybuf_def)
  from 1 2 3 4 5 show ?thesis by simp
qed

lemma HandleSafekeeperResponse_increasing:
  assumes "HandleSafekeeperResponse now sent s = Inr (ok, s')" and "feedback_increasing s"
  shows "feedback_increasing s'"
proof -
  from assms(1) consider
      (same) "to_primary s' = to_primary s" "lastAckPos s' = lastAckPos s"
    | (more) lsn where "lsn > lastAckPos s" "to_primary s' = to_primary s @ [Feedback lsn now False]"
        "lastAckPos s' = lsn"
    by (auto simp: HandleSafekeeperResponse_def Let_def split: option.splits if_splits sum.splits prod.splits)
  then show ?thesis
  proof cases
    case same
    with assms(2) show ?thesis by (simp add: feedback_increasing_def)
  next
    case more
    with assms(2) show ?thesis
      by (auto simp: feedback_increasing_def feedback_lsns_append sorted_wrt_append list_all_iff)
  qed
qed

lemma feedback_increasing_cong:
  "to_primary s' = to_primary s \<Longrightarrow> lastAckPos s' = lastAckPos s
   \<Longrightarrow> feedback_increasing s' = feedback_increasing s"
  by (simp add: feedback_increasing_def)

lemma visit_increasing:
  assumes "visit K io i s = Inr s'" and "feedback_increasing s"
  shows "feedback_increasing s'"
proof (cases "feedback_lsns (to_primary s') = feedback_lsns (to_primary s) \<and> lastAckPos s' = lastAckPos s")
  case True
  with assms(2) show ?thesis by (simp add: feedback_increasing_def)
next
  case False
  with assms(1) obtain bs b mb ok s2 where
      h: "HandleSafekeeperResponse (timestamp io) (feedback_sent io)
               (s\<lparr>heap := (heap s)[b := Some (mb\<lparr>ackMask := ackMask mb OR push_bit i 1\<rparr>)],
                  safekeeper := (safekeeper s)[i := (safekeeper s ! i)
                     \<lparr>ackPos := store_bytes (ackPos (safekeeper s ! i)) (asyncOffs (safekeeper s ! i)) bs,
                      asyncOffs := 8, state := SS_IDLE, asyncOffs := 0\<rparr>]\<rparr>) = Inr (ok, s2)"
      and s2: "to_primary s' = to_primary s2" "lastAckPos s' = lastAckPos s2"
    apply (simp add: visit_def Let_def connecting_def handshake_def wait_verdict_def send_wal_def
          StartReplication_def recv_ack_def feedback_lsns_append
          split: if_splits SafekeeperState.splits option.splits sum.splits prod.splits)
     apply (auto simp: feedback_lsns_append)
    done
  have "feedback_increasing (s\<lparr>heap := (heap s)[b := Some (mb\<lparr>ackMask := ackMask mb OR push_bit i 1\<rparr>)],
                  safekeeper := (safekeeper s)[i := (safekeeper s ! i)
                     \<lparr>ackPos := store_bytes (ackPos (safekeeper s ! i)) (asyncOffs (safekeeper s ! i)) bs,
                      asyncOffs := 8, state := SS_IDLE, asyncOffs := 0\<rparr>]\<rparr>)"
    using assms(2) by (simp add: feedback_increasing_def)
  from HandleSafekeeperResponse_increasing [OF h this] s2
  show ?thesis by (simp add: feedback_increasing_def)
qed

lemma visit_all_increasing:
  "visit_all K env is s = Inr s' \<Longrightarrow> feedback_increasing s \<Longrightarrow> feedback_increasing s'"
  by (induction "is" arbitrary: s) (auto split: sum.splits dest: visit_increasing)

lemma iteration_increasing:
  "iteration K e s = Inr s' \<Longrightarrow> feedback_increasing s \<Longrightarrow> feedback_increasing s'"
  by (auto simp: iteration_def from_server_def feedback_increasing_def Let_def
      split: event.splits copy_data.splits if_splits dest: visit_all_increasing [unfolded feedback_increasing_def])

lemma BroadcastWalStream_increasing:
  "BroadcastWalStream K es s = Inr s' \<Longrightarrow> feedback_increasing s \<Longrightarrow> feedback_increasing s'"
proof (induction es arbitrary: s)
  case Nil
  then show ?case by simp
next
  case (Cons e es)
  show ?case
  proof (cases "\<not> (streaming s \<or> msgQueue s \<noteq> []) \<or> e = SelectFailed")
    case True
    with Cons.prems show ?thesis by (auto split: event.splits)
  next
    case False
    with Cons.prems(1) obtain s1 where i: "iteration K e s = Inr s1" and r: "BroadcastWalStream K es s1 = Inr s'"
      by (auto split: event.splits sum.splits)
    from Cons.IH [OF r iteration_increasing [OF i Cons.prems(2)]] show ?thesis .
  qed
qed

section \<open>Pruning\<close>

lemma deref_update_other: "a \<noteq> b \<Longrightarrow> deref (h[b := x]) (Some a) = deref h (Some a)"
  by (simp add: deref_def)

lemma deref_update_None: "deref (h[a := None]) (Some a) = None"
  by (simp add: deref_def)

lemma cleanup_prefix:
  "cleanup n h q = Inr (h', q') \<Longrightarrow>
   \<exists>pre. q = pre @ q' \<and> (\<forall>a \<in> set pre. \<exists>m. deref h (Some a) = Some m \<and> ackMask m = push_bit n 1 - 1 \<and> n \<le> 30)"
proof (induction q arbitrary: h)
  case Nil
  then show ?case by simp
next
  case (Cons a q)
  from Cons.prems obtain m where m: "deref h (Some a) = Some m" and n: "n \<le> 30"
    by (auto split: option.splits if_splits)
  show ?case
  proof (cases "ackMask m = push_bit n 1 - 1")
    case False
    with Cons.prems m n have "q' = a # q" by simp
    then show ?thesis by simp
  next
    case True
    with Cons.prems m n have c: "cleanup n (h[a := None]) q = Inr (h', q')" by simp
    from Cons.IH [OF c] obtain pre where pre: "q = pre @ q'"
      and all: "\<forall>b \<in> set pre. \<exists>m. deref (h[a := None]) (Some b) = Some m \<and> ackMask m = push_bit n 1 - 1 \<and> n \<le> 30"
      by blast
    have "\<exists>m. deref h (Some b) = Some m \<and> ackMask m = push_bit n 1 - 1 \<and> n \<le> 30" if "b \<in> set pre" for b
    proof -
      from all that obtain mb where mb: "deref (h[a := None]) (Some b) = Some mb" "ackMask mb = push_bit n 1 - 1"
        by blast
      then have "b \<noteq> a" using deref_update_None [of h a] by auto
      with mb show ?thesis using n by (simp add: deref_update_other)
    qed
    with pre m True n show ?thesis
      by (intro exI [of _ "a # pre"]) auto
  qed
qed

lemma cleanup_total:
  "n \<le> 30 \<Longrightarrow> distinct q \<Longrightarrow> list_all (\<lambda>a. deref h (Some a) \<noteq> None) q
   \<Longrightarrow> \<exists>h' q'. cleanup n h q = Inr (h', q')"
proof (induction q arbitrary: h)
  case Nil
  then show ?case by simp
next
  case (Cons a q)
  from Cons.prems(3) obtain m where m: "deref h (Some a) = Some m" by auto
  have "deref (h[a := None]) (Some b) \<noteq> None" if "b \<in> set q" for b
  proof -
    from that Cons.prems(2) have "b \<noteq> a" by auto
    with that Cons.prems(3) show ?thesis by (simp add: list_all_iff deref_update_other)
  qed
  then have "list_all (\<lambda>b. deref (h[a := None]) (Some b) \<noteq> None) q"
    by (simp add: list_all_iff)
  from Cons.IH [OF Cons.prems(1) _ this] Cons.prems(2)
  obtain h' q' where "cleanup n (h[a := None]) q = Inr (h', q')" by auto
  with m Cons.prems(1) show ?case by simp
qed

section \<open>A message that no session points to\<close>

lemma full_mask_nonzero: "1 \<le> n \<Longrightarrow> n \<le> 30 \<Longrightarrow> (push_bit n 1 - 1 :: 32 word) \<noteq> 0"
proof -
  assume n: "1 \<le> n" "n \<le> 30"
  then have "bit (push_bit n 1 - 1 :: 32 word) 0"
    by (simp add: push_bit_of_1 flip: mask_eq_exp_minus_1) (simp add: bit_mask_iff)
  then show ?thesis by auto
qed

lemma cleanup_keeps:
  "cleanup n h q = Inr (h', q') \<Longrightarrow> a \<in> set q \<Longrightarrow> deref h (Some a) = Some m
   \<Longrightarrow> ackMask m \<noteq> push_bit n 1 - 1 \<Longrightarrow> a \<in> set q' \<and> deref h' (Some a) = Some m"
proof (induction q arbitrary: h)
  case Nil
  then show ?case by simp
next
  case (Cons b q)
  show ?case
  proof (cases "b = a")
    case True
    with Cons.prems show ?thesis by (auto split: if_splits)
  next
    case False
    with Cons.prems have a: "a \<in> set q" by simp
    from Cons.prems obtain mb where mb: "deref h (Some b) = Some mb"
      by (auto split: option.splits)
    show ?thesis
    proof (cases "ackMask mb = push_bit n 1 - 1")
      case True
      with Cons.prems mb have c: "cleanup n (h[b := None]) q = Inr (h', q')"
        by (auto split: if_splits)
      have "deref (h[b := None]) (Some a) = Some m"
        using False Cons.prems(3) by (simp add: deref_update_other)
      from Cons.IH [OF c a this Cons.prems(4)] show ?thesis .
    next
      case f: False
      with Cons.prems mb show ?thesis by (auto split: if_splits)
    qed
  qed
qed

lemma HandleSafekeeperResponse_keeps:
  assumes "HandleSafekeeperResponse now sent s = Inr (ok, s')"
      and "a \<in> set (msgQueue s)" and "deref (heap s) (Some a) = Some m" and "ackMask m = 0"
      and "1 \<le> length (safekeeper s)" and "length (safekeeper s) \<le> 30"
  shows "a \<in> set (msgQueue s') \<and> deref (heap s') (Some a) = Some m"
proof -
  have nz: "ackMask m \<noteq> push_bit (length (safekeeper s)) 1 - 1"
    using full_mask_nonzero [OF assms(5,6)] assms(4) by simp
  from assms(1) consider "heap s' = heap s" "msgQueue s' = msgQueue s"
    | "cleanup (length (safekeeper s)) (heap s) (msgQueue s) = Inr (heap s', msgQueue s')"
    by (auto simp: HandleSafekeeperResponse_def Let_def split: option.splits if_splits sum.splits prod.splits)
  then show ?thesis
  proof cases
    case 1
    with assms show ?thesis by simp
  next
    case 2
    from cleanup_keeps [OF 2 assms(2,3) nz] show ?thesis .
  qed
qed

lemma from_server_heap:
  "from_server K cd w r s = Inr s' \<Longrightarrow>
   (heap s' = heap s \<and> msgQueue s' = msgQueue s)
   \<or> (\<exists>m. heap s' = heap s @ [Some m] \<and> msgQueue s' = msgQueue s @ [length (heap s)] \<and> ackMask m = 0)"
  by (auto simp: from_server_def Let_def split: copy_data.splits if_splits)

lemma deref_append: "deref h (Some a) = Some m \<Longrightarrow> deref (h @ h2) (Some a) = Some m"
  by (auto simp: deref_def nth_append split: if_splits)

lemma from_server_unacked:
  assumes "from_server K cd w r s = Inr s'" and "unacked a s"
  shows "unacked a s'"
proof -
  have cm: "map currMsg (safekeeper s') = map currMsg (safekeeper s)"
    using from_server_currMsg [OF assms(1)] by simp
  from assms(2) obtain m where q: "a \<in> set (msgQueue s)" and m: "deref (heap s) (Some a) = Some m" "ackMask m = 0"
    and nc: "Some a \<notin> set (map currMsg (safekeeper s))"
    by (auto simp: unacked_def split: option.splits)
  from from_server_heap [OF assms(1)] q m have "a \<in> set (msgQueue s') \<and> deref (heap s') (Some a) = Some m"
    by (auto simp: deref_append)
  with m cm nc show ?thesis by (simp add: unacked_def)
qed

lemma visit_unacked:
  assumes "visit K io i s = Inr s'" and "unacked a s" and "i < length (safekeeper s)"
      and "1 \<le> length (safekeeper s)" and "length (safekeeper s) \<le> 30"
  shows "unacked a s'"
proof -
  have cm: "map currMsg (safekeeper s') = map currMsg (safekeeper s)"
    using visit_currMsg [OF assms(1)] by simp
  from assms(2) obtain m where q: "a \<in> set (msgQueue s)" and m: "deref (heap s) (Some a) = Some m" "ackMask m = 0"
    and nc: "Some a \<notin> set (map currMsg (safekeeper s))"
    by (auto simp: unacked_def split: option.splits)
  have na: "currMsg (safekeeper s ! i) \<noteq> Some a"
    using nc assms(3) by (metis length_map nth_map nth_mem)
  have "a \<in> set (msgQueue s') \<and> deref (heap s') (Some a) = Some m"
  proof (cases "heap s' = heap s \<and> msgQueue s' = msgQueue s")
    case True
    with q m show ?thesis by simp
  next
    case False
    with assms(1) obtain bs b mb ok s2 where
        b: "currMsg (safekeeper s ! i) = Some b" "deref (heap s) (Some b) = Some mb"
      and h: "HandleSafekeeperResponse (timestamp io) (feedback_sent io)
               (s\<lparr>heap := (heap s)[b := Some (mb\<lparr>ackMask := ackMask mb OR push_bit i 1\<rparr>)],
                  safekeeper := (safekeeper s)[i := (safekeeper s ! i)
                     \<lparr>ackPos := store_bytes (ackPos (safekeeper s ! i)) (asyncOffs (safekeeper s ! i)) bs,
                      asyncOffs := 8, state := SS_IDLE, asyncOffs := 0\<rparr>]\<rparr>) = Inr (ok, s2)"
      and s2: "heap s' = heap s2" "msgQueue s' = msgQueue s2"
      apply (simp add: visit_def Let_def connecting_def handshake_def wait_verdict_def send_wal_def
          StartReplication_def recv_ack_def
          split: if_splits SafekeeperState.splits option.splits sum.splits prod.splits)
      apply auto
      done
    have "b \<noteq> a" using b(1) na by auto
    then have "deref ((heap s)[b := Some (mb\<lparr>ackMask := ackMask mb OR push_bit i 1\<rparr>)]) (Some a) = Some m"
      using m by (simp add: deref_update_other)
    from HandleSafekeeperResponse_keeps [OF h] this q m(2) assms(4,5) s2
    show ?thesis by simp
  qed
  with m cm nc show ?thesis by (simp add: unacked_def)
qed


lemma visit_all_unacked:
  "visit_all K env is s = Inr s' \<Longrightarrow> unacked a s \<Longrightarrow> \<forall>i \<in> set is. i < length (safekeeper s)
   \<Longrightarrow> 1 \<le> length (safekeeper s) \<Longrightarrow> length (safekeeper s) \<le> 30
   \<Longrightarrow> unacked a s' \<and> length (safekeeper s') = length (safekeeper s)"
proof (induction "is" arbitrary: s)
  case Nil
  then show ?case by simp
next
  case (Cons i "is")
  from Cons.prems(1) obtain s1 where v: "visit K (env i) i s = Inr s1" and r: "visit_all K env is s1 = Inr s'"
    by (auto split: sum.splits)
  have len: "length (safekeeper s1) = length (safekeeper s)"
    using visit_currMsg [OF v] by (metis length_map)
  have u: "unacked a s1"
    using visit_unacked [OF v Cons.prems(2)] Cons.prems(3,4,5) by simp
  from Cons.IH [OF r u] Cons.prems(3,4,5) len show ?case by simp
qed

lemma iteration_unacked:
  assumes "iteration K e s = Inr s'" and "unacked a s"
      and "1 \<le> length (safekeeper s)" and "length (safekeeper s) \<le> 30"
  shows "unacked a s' \<and> length (safekeeper s') = length (safekeeper s)"
proof (cases e)
  case SelectFailed
  with assms show ?thesis by (simp add: iteration_def)
next
  case (FromServer cd w r)
  with assms(1) have f: "from_server K cd w r s = Inr s'" by (simp add: iteration_def)
  have "length (safekeeper s') = length (safekeeper s)"
    using from_server_currMsg [OF f] by (metis length_map)
  with from_server_unacked [OF f assms(2)] show ?thesis by simp
next
  case (FromSafekeepers env)
  with assms(1) have "visit_all K env [0..<length (safekeeper s)] s = Inr s'" by (simp add: iteration_def)
  from visit_all_unacked [OF this assms(2)] assms(3,4) show ?thesis by simp
qed

lemma BroadcastWalStream_unacked:
  "BroadcastWalStream K es s = Inr s' \<Longrightarrow> unacked a s
   \<Longrightarrow> 1 \<le> length (safekeeper s) \<Longrightarrow> length (safekeeper s) \<le> 30 \<Longrightarrow> unacked a s'"
proof (induction es arbitrary: s)
  case Nil
  then show ?case by simp
next
  case (Cons e es)
  show ?case
  proof (cases "\<not> (streaming s \<or> msgQueue s \<noteq> []) \<or> e = SelectFailed")
    case True
    with Cons.prems show ?thesis by (auto split: event.splits)
  next
    case False
    with Cons.prems(1) obtain s1 where i: "iteration K e s = Inr s1" and r: "BroadcastWalStream K es s1 = Inr s'"
      by (auto split: event.splits sum.splits)
    from iteration_unacked [OF i Cons.prems(2,3,4)] Cons.IH [OF r] Cons.prems(3,4)
    show ?thesis by simp
  qed
qed

lemma BroadcastMessage_not_idle:
  "i < length sks \<Longrightarrow> state (sks ! i) \<noteq> SS_IDLE \<Longrightarrow> BroadcastMessage w r m sks ! i = sks ! i"
  by (simp add: BroadcastMessage_def)

section \<open>Where ackPos changes\<close>

lemma ackPos_all_update_same:
  "ackPos sk = ackPos (safekeeper s ! i) \<Longrightarrow>
   ackPos_all (s\<lparr>safekeeper := (safekeeper s)[i := sk]\<rparr>) = ackPos_all s"
  by (simp add: ackPos_all_def map_update_same)

lemma ackPos_all_update:
  "ackPos_all (s\<lparr>safekeeper := (safekeeper s)[i := sk]\<rparr>) = (ackPos_all s)[i := ackPos sk]"
  by (simp add: ackPos_all_def map_update)

lemma map_update_nth: "(map f xs)[i := f (xs ! i)] = map f xs"
  by (metis list_update_beyond list_update_id length_map nth_map not_le)

lemma visit_ackPos:
  assumes "visit K io i s = Inr s'" and "i < length (safekeeper s)"
  shows "\<exists>x. ackPos_all s' = (ackPos_all s)[i := x]
           \<and> (x = ackPos (safekeeper s ! i)
              \<or> state (safekeeper s ! i) = SS_HANDSHAKE \<and> x = walEnd (server (read_info io))
              \<or> state (safekeeper s ! i) = SS_RECV_ACK
                 \<and> x = store_bytes (ackPos (safekeeper s ! i)) (asyncOffs (safekeeper s ! i))
                         (take (8 - asyncOffs (safekeeper s ! i)) (read_ack io)))"
proof -
  have same: "ackPos_all s' = ackPos_all s \<Longrightarrow> ?thesis"
    by (intro exI [of _ "ackPos (safekeeper s ! i)"]) (simp add: ackPos_all_def map_update map_update_nth)
  consider (off) "\<not> sock (safekeeper s ! i) \<or> (\<not> readable io \<and> \<not> writable io)"
    | (wr) "sock (safekeeper s ! i)" "\<not> readable io" "writable io"
    | (rd) "sock (safekeeper s ! i)" "readable io"
    by blast
  then show ?thesis
  proof cases
    case off
    with assms(1) have "s' = s" by (auto simp: visit_def Let_def split: if_splits)
    then show ?thesis using same by simp
  next
    case wr
    with assms(1) have "send_wal io i s = Inr s'" by (simp add: visit_def Let_def)
    then have "ackPos_all s' = ackPos_all s"
      by (auto simp: send_wal_def Let_def ackPos_all_def map_update map_update_nth
          split: if_splits option.splits)
    then show ?thesis by (rule same)
  next
    case rd
    show ?thesis
    proof (cases "state (safekeeper s ! i)")
      case SS_CONNECTING
      with rd assms(1) have "s' = connecting io i s" by (simp add: visit_def Let_def)
      then have "ackPos_all s' = ackPos_all s"
        by (auto simp: connecting_def Let_def ackPos_all_def map_update map_update_nth)
      then show ?thesis by (rule same)
    next
      case SS_HANDSHAKE
      with rd assms(1) have "handshake K io i s = Inr s'" by (simp add: visit_def Let_def)
      then have "ackPos_all s' = ackPos_all s \<or> ackPos_all s' = (ackPos_all s)[i := walEnd (server (read_info io))]"
        by (auto simp: handshake_def Let_def ackPos_all_def map_update map_update_nth
            split: if_splits option.splits)
      then show ?thesis using same SS_HANDSHAKE by auto
    next
      case SS_WAIT_VERDICT
      with rd assms(1) have "wait_verdict K io i s = Inr s'" by (simp add: visit_def Let_def)
      then have "ackPos_all s' = ackPos_all s"
        by (auto simp: wait_verdict_def Let_def ackPos_all_def map_update map_update_nth
            split: if_splits option.splits sum.splits prod.splits
            dest!: StartReplication_safekeeper)
      then show ?thesis by (rule same)
    next
      case SS_RECV_ACK
      with rd assms(1) have r: "recv_ack io i s = Inr s'" by (simp add: visit_def Let_def)
      then have "ackPos_all s' = (ackPos_all s)
              [i := store_bytes (ackPos (safekeeper s ! i)) (asyncOffs (safekeeper s ! i))
                      (take (8 - asyncOffs (safekeeper s ! i)) (read_ack io))]"
        by (auto simp: recv_ack_def Let_def ackPos_all_def map_update map_update_nth
            split: if_splits option.splits sum.splits prod.splits
            dest!: HandleSafekeeperResponse_safekeeper)
      then show ?thesis using SS_RECV_ACK by auto
    qed (use rd assms(1) in \<open>simp_all add: visit_def Let_def\<close>)
  qed
qed

lemma list_all2_update_ge:
  "i < length xs \<Longrightarrow> xs ! i \<le> x \<Longrightarrow> list_all2 (\<le>) xs (xs[i := (x :: 'a :: order)])"
  by (auto simp: list_all2_conv_all_nth nth_list_update)

lemma handshake_ackPos:
  assumes "handshake K io i s = Inr s'"
  shows "ackPos_all s' = ackPos_all s
         \<or> (\<exists>rc. ReadSocketAsync (read_failed io) (read_rc io)
                    (sizeof_SafekeeperInfo K - asyncOffs (safekeeper s ! i)) = Some rc
               \<and> asyncOffs (safekeeper s ! i) + rc = sizeof_SafekeeperInfo K
               \<and> protocolVersion (server (read_info io)) = SK_PROTOCOL_VERSION K
               \<and> ackPos_all s' = (ackPos_all s)[i := walEnd (server (read_info io))])"
  using assms
  by (auto simp: handshake_def Let_def ackPos_all_def map_update map_update_nth
      split: if_splits option.splits)

lemma list_all2_le_refl: "list_all2 (\<le>) xs (xs :: 'a :: order list)"
  by (simp add: list_all2_conv_all_nth)

lemma visit_ackPos_ge:
  assumes "visit K io i s = Inr s'" and "i < length (safekeeper s)"
      and "delivers_nondecreasing K io (safekeeper s ! i)"
  shows "list_all2 (\<le>) (ackPos_all s) (ackPos_all s')"
proof -
  let ?sk = "safekeeper s ! i"
  have upd: "list_all2 (\<le>) (ackPos_all s) ((ackPos_all s)[i := x])" if "ackPos ?sk \<le> x" for x
    using that assms(2) by (intro list_all2_update_ge) (simp_all add: ackPos_all_def)
  from visit_ackPos [OF assms(1,2)] obtain x where x: "ackPos_all s' = (ackPos_all s)[i := x]"
    and c: "x = ackPos ?sk
              \<or> state ?sk = SS_HANDSHAKE \<and> x = walEnd (server (read_info io))
              \<or> state ?sk = SS_RECV_ACK
                 \<and> x = store_bytes (ackPos ?sk) (asyncOffs ?sk) (take (8 - asyncOffs ?sk) (read_ack io))"
    by blast
  have io: "sock ?sk \<and> readable io" if "ackPos_all s' \<noteq> ackPos_all s"
  proof (rule ccontr)
    assume n: "\<not> (sock ?sk \<and> readable io)"
    show False
    proof (cases "sock ?sk \<and> writable io")
      case True
      with n assms(1) have "send_wal io i s = Inr s'" by (auto simp: visit_def Let_def)
      then have "ackPos_all s' = ackPos_all s"
        by (auto simp: send_wal_def Let_def ackPos_all_def map_update map_update_nth
            split: if_splits option.splits)
      with that show False by simp
    next
      case False
      with n assms(1) have "s' = s" by (auto simp: visit_def Let_def split: if_splits)
      with that show False by simp
    qed
  qed
  show ?thesis
  proof (cases "ackPos_all s' = ackPos_all s")
    case True
    then show ?thesis by (simp add: list_all2_le_refl)
  next
    case False
    note rd = io [OF False]
    from False x have ne: "x \<noteq> ackPos ?sk"
      by (auto simp: ackPos_all_def map_update_nth)
    with c consider (hs) "state ?sk = SS_HANDSHAKE" | (ra) "state ?sk = SS_RECV_ACK"
        "x = store_bytes (ackPos ?sk) (asyncOffs ?sk) (take (8 - asyncOffs ?sk) (read_ack io))"
      by blast
    then show ?thesis
    proof cases
      case hs
      with rd assms(1) have "handshake K io i s = Inr s'" by (simp add: visit_def Let_def)
      from handshake_ackPos [OF this] False obtain rc where
          "ReadSocketAsync (read_failed io) (read_rc io) (sizeof_SafekeeperInfo K - asyncOffs ?sk) = Some rc"
          "asyncOffs ?sk + rc = sizeof_SafekeeperInfo K"
          "protocolVersion (server (read_info io)) = SK_PROTOCOL_VERSION K"
          "ackPos_all s' = (ackPos_all s)[i := walEnd (server (read_info io))]"
        by blast
      with assms(3) rd hs show ?thesis
        by (auto simp: delivers_nondecreasing_def intro: upd)
    next
      case ra
      with assms(3) rd have "ackPos ?sk \<le> x"
        by (auto simp: delivers_nondecreasing_def store_bytes_whole store_bytes_def)
      then show ?thesis unfolding x by (rule upd)
    qed
  qed
qed

lemma visit_all_ackPos_ge:
  "visit_all K env is s = Inr s' \<Longrightarrow> visits_nondecreasing K env is s
   \<Longrightarrow> \<forall>i \<in> set is. i < length (safekeeper s)
   \<Longrightarrow> list_all2 (\<le>) (ackPos_all s) (ackPos_all s')"
proof (induction "is" arbitrary: s)
  case Nil
  then show ?case by (simp add: list_all2_le_refl)
next
  case (Cons i "is")
  from Cons.prems(1) obtain s1 where v: "visit K (env i) i s = Inr s1" and r: "visit_all K env is s1 = Inr s'"
    by (auto split: sum.splits)
  have len: "length (safekeeper s1) = length (safekeeper s)"
    using visit_currMsg [OF v] by (metis length_map)
  from Cons.prems(2) v have d: "delivers_nondecreasing K (env i) (safekeeper s ! i)"
    and w: "visits_nondecreasing K env is s1"
    by simp_all
  have a: "list_all2 (\<le>) (ackPos_all s) (ackPos_all s1)"
    using visit_ackPos_ge [OF v _ d] Cons.prems(3) by simp
  have b: "list_all2 (\<le>) (ackPos_all s1) (ackPos_all s')"
    using Cons.IH [OF r w] Cons.prems(3) len by simp
  from a b show ?case
    by (rule list_all2_trans [rotated]) simp
qed

lemma iteration_ackPos_ge:
  assumes "iteration K e s = Inr s'" and "run_nondecreasing K [e] s" and "streaming s \<or> msgQueue s \<noteq> []"
  shows "list_all2 (\<le>) (ackPos_all s) (ackPos_all s')"
proof (cases e)
  case SelectFailed
  with assms(1) show ?thesis by (simp add: iteration_def list_all2_le_refl)
next
  case (FromServer cd w r)
  with assms(1) have "from_server K cd w r s = Inr s'" by (simp add: iteration_def)
  then have "ackPos_all s' = ackPos_all s"
    by (auto simp: from_server_def Let_def ackPos_all_def split: copy_data.splits if_splits)
  then show ?thesis by (simp add: list_all2_le_refl)
next
  case (FromSafekeepers env)
  with assms(1) have v: "visit_all K env [0..<length (safekeeper s)] s = Inr s'" by (simp add: iteration_def)
  from assms(2,3) FromSafekeepers have "visits_nondecreasing K env [0..<length (safekeeper s)] s"
    by (auto split: if_splits)
  from visit_all_ackPos_ge [OF v this] show ?thesis by simp
qed

lemma BroadcastWalStream_ackPos_ge:
  "BroadcastWalStream K es s = Inr s' \<Longrightarrow> run_nondecreasing K es s
   \<Longrightarrow> list_all2 (\<le>) (ackPos_all s) (ackPos_all s') \<and> quorum s' = quorum s"
proof (induction es arbitrary: s)
  case Nil
  then show ?case by (simp add: list_all2_le_refl)
next
  case (Cons e es)
  show ?case
  proof (cases "\<not> (streaming s \<or> msgQueue s \<noteq> []) \<or> e = SelectFailed")
    case True
    with Cons.prems show ?thesis by (auto simp: list_all2_le_refl split: event.splits)
  next
    case False
    with Cons.prems(1) obtain s1 where i: "iteration K e s = Inr s1" and r: "BroadcastWalStream K es s1 = Inr s'"
      by (auto split: event.splits sum.splits)
    from Cons.prems(2) False i have one: "run_nondecreasing K [e] s" and rest: "run_nondecreasing K es s1"
      by (auto split: event.splits if_splits)
    from False have live: "streaming s \<or> msgQueue s \<noteq> []" by simp
    have a: "list_all2 (\<le>) (ackPos_all s) (ackPos_all s1)"
      by (rule iteration_ackPos_ge [OF i one live])
    from Cons.IH [OF r rest] have b: "list_all2 (\<le>) (ackPos_all s1) (ackPos_all s')" and q: "quorum s' = quorum s1"
      by simp_all
    have "list_all2 (\<le>) (ackPos_all s) (ackPos_all s')"
      using a b by (rule list_all2_trans [rotated]) simp
    with q iteration_currMsg [OF i] show ?thesis by simp
  qed
qed

section \<open>Runs from the initial state\<close>
















section \<open>The claims about single functions\<close>

text \<open>
  C2. The claim: for every vector of \<open>N\<close> acknowledged positions and every quorum
  \<open>Q\<close> with \<open>N div 2 + 1 \<le> Q \<le> N\<close>, \<open>GetAcknowledgedWALPosition\<close> returns the
  \<open>(N - Q + 1)\<close>-th largest element, which is the highest position that at least \<open>Q\<close> of
  the \<open>N\<close> safekeepers have confirmed. The function does return the element at index
  \<open>N - Q\<close> of the descending order (\<open>GetAcknowledgedWALPosition_eq\<close>), but that element
  is confirmed by \<open>N - Q + 1\<close> safekeepers, which is fewer than \<open>Q\<close> whenever \<open>N\<close> is even
  or \<open>Q\<close> is above the majority. With four safekeepers at 10, 20, 30 and 40 and the default
  quorum 3, the function answers 30, a position only two safekeepers have reached; the
  highest position three of them have reached is 20.
\<close>

theorem GetAcknowledgedWALPosition_below_quorum:
  "GetAcknowledgedWALPosition [10, 20, 30, 40] 3 = Some 30
   \<and> confirmed_by [10, 20, 30, 40] 30 = 2
   \<and> confirmed_by [10, 20, 30, 40] 20 = 3"
  by (simp add: GetAcknowledgedWALPosition_def qsort_def CompareLsn_def confirmed_by_def)

text \<open>
  C3. The claim: \<open>CompareNodeId\<close> orders node identifiers by term and, for equal terms,
  by comparing the two UUIDs lexicographically. The function passes \<open>id1\<close>'s UUID to
  \<open>memcmp\<close> twice: two identifiers of term 1 whose UUIDs differ in the last byte compare
  equal, where \<open>memcmp\<close> of the two UUIDs is negative.
\<close>

theorem CompareNodeId_ignores_uuid:
  "CompareNodeId \<lparr>termv = 1, uuid = [0,0,0,0,0,0,0,0,0,0,0,0,0,0,0,1]\<rparr>
                 \<lparr>termv = 1, uuid = [0,0,0,0,0,0,0,0,0,0,0,0,0,0,0,2]\<rparr> = 0
   \<and> memcmp [0,0,0,0,0,0,0,0,0,0,0,0,0,0,0,1] [0,0,0,0,0,0,0,0,0,0,0,0,0,0,0,2]
        sizeof_pg_uuid_t < 0"
  by (simp add: CompareNodeId_def memcmp_def sizeof_pg_uuid_t_def)

text \<open>
  C8. The claim: each iteration of the re-streamer's loop reads and emits exactly
  \<open>min (flushLsn - startpos) MAX_SEND_SIZE\<close> bytes, in exact arithmetic. The difference
  is cut to 32 bits before the minimum is taken (\<open>WalSender_sendSize_small\<close> covers the
  differences below \<open>2^32\<close>). With \<open>startpos\<close> at 16 MiB, \<open>flushLsn\<close> exactly 4 GiB above it
  and \<open>MAX_SEND_SIZE\<close> 131072, the iteration emits no bytes and leaves \<open>startpos\<close> where it
  was, where the exact minimum is 131072.
\<close>

theorem WalSender_send_truncates:
  "WalSender_send 131072 0x101000000 0x1000000 file = Some ([], 0x1000000)
   \<and> min (uint (0x101000000 :: XLogRecPtr) - uint (0x1000000 :: XLogRecPtr))
         (uint (131072 :: 32 word)) = 131072"
  by (simp add: WalSender_send_def WalSender_sendSize_def)

text \<open>
  C9. The claim: the proxy's command line accepts \<open>-q\<close>/\<open>--quorum\<close> and up to 64
  safekeepers, defaults the quorum to \<open>N div 2 + 1\<close> and rejects a quorum outside
  \<open>[N div 2 + 1, N]\<close>. Neither \<open>optstring\<close> nor \<open>long_options\<close> has the quorum option, so
  a command line that gives a valid quorum 2 for three safekeepers exits with status 1,
  in the short and in the long form; without the option the same list is accepted with
  quorum 2. (\<open>main_proceeds\<close>: whenever \<open>main\<close> goes on, the quorum is the default and
  there are fewer than \<open>MAX_SAFEKEEPERS\<close> safekeepers.)
\<close>

theorem main_rejects_quorum_option:
  "main atoi 64 [Short CHR ''q'' ''2'', Short CHR ''s'' ''a:1,b:2,c:3''] = Inl (Exit 1)
   \<and> main atoi 64 [Long ''quorum'' ''2'', Short CHR ''s'' ''a:1,b:2,c:3''] = Inl (Exit 1)
   \<and> main atoi 64 [Short CHR ''s'' ''a:1,b:2,c:3'']
       = Inr (2, [(''a'', ''1''), (''b'', ''2''), (''c'', ''3'')])"
  by (simp add: main_def optstring_def long_options_def parse_safekeepers.simps check_quorum_def)

section \<open>The claims about the proxy\<close>

text \<open>
  An instance for the position of \<open>START_REPLICATION\<close>: two of three safekeepers are
  at \<open>0x2345678\<close>, the quorum is 2, the server's \<open>walEnd\<close> is \<open>0x5000000\<close> and segments
  have 16 MiB. When the second vote completes the proxy starts at \<open>0x2000000\<close>, the
  segment of the quorum position; the maximum of the two positions, rounded down, is
  \<open>0x5000000\<close>.
\<close>

theorem StartReplication_not_max:
  "visit example_layout (example_read (replicate 24 0)) 1
     ((example_proxy [example_safekeeper SS_IDLE 0x2345678 None,
                      example_safekeeper SS_WAIT_VERDICT 0x2345678 None,
                      example_safekeeper SS_OFFLINE 0 None] 2 [] []) \<lparr>n_votes := 1\<rparr>)
   = Inr ((example_proxy [example_safekeeper SS_IDLE 0x2345678 None,
                      (example_safekeeper SS_IDLE 0x2345678 None)\<lparr>asyncOffs := 24\<rparr>,
                      example_safekeeper SS_OFFLINE 0 None] 2 [] [])
            \<lparr>to_primary := [START_REPLICATION 0 0x2000000 1]\<rparr>)
   \<and> GetAcknowledgedWALPosition [0x2345678, 0x2345678, 0] 2 = Some 0x2345678
   \<and> spec_startpos 0x2345678 (walEnd example_server) (walSegSize example_server) = 0x5000000"
  by (simp add: visit_def ReadSocketAsync_def wait_verdict_def StartReplication_def StartReplication_startpos_def
       XLogSegmentOffset_def CompareNodeId_def memcmp_def memcmp_bytes_self spec_startpos_def
       GetAcknowledgedWALPosition_def qsort_def CompareLsn_def ackPos_all_def
       Let_def example_defs)

text \<open>
  C1, as amended. When the rest of the answer of a safekeeper in \<open>SS_WAIT_VERDICT\<close> has
  arrived, the answer compares equal to \<open>maxNodeId\<close> and its vote is the \<open>quorum\<close>-th, the
  proxy issues \<open>START_REPLICATION\<close> with the timeline of \<open>serverInfo\<close> at \<open>startpos\<close>
  rounded down to a segment boundary, where \<open>startpos\<close> is the quorum position, or the
  server's \<open>walEnd\<close> if the quorum position is 0 (not the maximum of the two).
\<close>

theorem StartReplication_at_quorum_vote:
  assumes "sock (safekeeper s ! i)" and "state (safekeeper s ! i) = SS_WAIT_VERDICT"
      and "readable io" and "asyncOffs (safekeeper s ! i) \<le> sizeof_NodeId K"
      and "sizeof_NodeId K \<le> asyncOffs (safekeeper s ! i) + read_rc io"
      and "CompareNodeId (read_nodeId io) (maxNodeId s) = 0"
      and "n_votes s + 1 = quorum s"
      and "GetAcknowledgedWALPosition (ackPos_all s) (quorum s) = Some q"
      and "copy_both io"
      and "startpos = (if q = 0 then walEnd (serverInfo s) else q)"
  shows "\<exists>s'. visit K io i s = Inr s' \<and>
           to_primary s' = to_primary s @
             [START_REPLICATION
                (ucast (drop_bit 32 (startpos - startpos mod ucast (walSegSize (serverInfo s)))))
                (ucast (startpos - startpos mod ucast (walSegSize (serverInfo s))))
                (timeline (serverInfo s))]"
proof -
  let ?sk = "safekeeper s ! i"
  let ?sk1 = "?sk\<lparr>info := (info ?sk)\<lparr>server := (server (info ?sk))\<lparr>nodeId := read_nodeId io\<rparr>\<rparr>,
                   asyncOffs := sizeof_NodeId K\<rparr>"
  let ?s1 = "s\<lparr>safekeeper := (safekeeper s)[i := ?sk1\<lparr>state := SS_IDLE\<rparr>], n_votes := n_votes s + 1\<rparr>"
  let ?p = "startpos - startpos mod ucast (walSegSize (serverInfo s))"
  have a: "ackPos_all ?s1 = ackPos_all s"
    by (simp add: ackPos_all_def map_update_same del: map_update)
  have sp: "StartReplication_startpos ?s1 = Some ?p"
    using assms(8,10) by (simp add: StartReplication_startpos_def a XLogSegmentOffset_def Let_def)
  have sr: "StartReplication (copy_both io) ?s1 =
      Inr (True, ?s1\<lparr>to_primary := to_primary s @
             [START_REPLICATION (ucast (drop_bit 32 ?p)) (ucast ?p) (timeline (serverInfo s))]\<rparr>)"
    using assms(9) by (simp add: StartReplication_def sp)
  have w: "ReadSocketAsync (read_failed io) (read_rc io) (sizeof_NodeId K - asyncOffs ?sk)
      = Some (sizeof_NodeId K - asyncOffs ?sk)"
    using assms(4,5) by (auto simp: ReadSocketAsync_def)
  have "wait_verdict K io i s = Inr (?s1\<lparr>to_primary := to_primary s @
             [START_REPLICATION (ucast (drop_bit 32 ?p)) (ucast ?p) (timeline (serverInfo s))]\<rparr>)"
    using assms(4,6,7) sr by (simp add: wait_verdict_def w Let_def)
  then have "visit K io i s = Inr (?s1\<lparr>to_primary := to_primary s @
             [START_REPLICATION (ucast (drop_bit 32 ?p)) (ucast ?p) (timeline (serverInfo s))]\<rparr>)"
    using assms(1,2,3) by (simp add: visit_def Let_def)
  then show ?thesis by simp
qed

text \<open>An instance: no safekeeper has data, so streaming starts at the server's position.\<close>

theorem StartReplication_at_quorum_vote_witness:
  "\<exists>s'. visit example_layout (example_read (replicate 24 0)) 1
     ((example_proxy [example_safekeeper SS_IDLE 0 None,
                      example_safekeeper SS_WAIT_VERDICT 0 None,
                      example_safekeeper SS_OFFLINE 0 None] 2 [] []) \<lparr>n_votes := 1\<rparr>) = Inr s'
     \<and> to_primary s' = [START_REPLICATION 0 0x5000000 1]"
proof -
  let ?s = "(example_proxy [example_safekeeper SS_IDLE 0 None,
                      example_safekeeper SS_WAIT_VERDICT 0 None,
                      example_safekeeper SS_OFFLINE 0 None] 2 [] []) \<lparr>n_votes := 1\<rparr>"
  let ?io = "example_read (replicate 24 0)"
  have h1: "sock (safekeeper ?s ! 1)" and h2: "state (safekeeper ?s ! 1) = SS_WAIT_VERDICT"
    by (simp_all add: example_defs)
  have h3: "readable ?io" and h4: "asyncOffs (safekeeper ?s ! 1) \<le> sizeof_NodeId example_layout"
    and h9: "copy_both ?io"
    by (simp_all add: example_defs)
  have h5: "sizeof_NodeId example_layout \<le> asyncOffs (safekeeper ?s ! 1) + read_rc ?io"
    by (simp add: example_defs)
  have h6: "CompareNodeId (read_nodeId ?io) (maxNodeId ?s) = 0"
    by (simp add: example_defs CompareNodeId_equal_terms)
  have h7: "n_votes ?s + 1 = quorum ?s"
    by (simp add: example_defs)
  have h8: "GetAcknowledgedWALPosition (ackPos_all ?s) (quorum ?s) = Some 0"
    by (simp add: example_defs GetAcknowledgedWALPosition_def qsort_def CompareLsn_def ackPos_all_def)
  have h10: "(0x5000000 :: XLogRecPtr) = (if (0 :: XLogRecPtr) = 0 then walEnd (serverInfo ?s) else 0)"
    by (simp add: example_defs)
  have t: "to_primary ?s = []" "timeline (serverInfo ?s) = 1" "walSegSize (serverInfo ?s) = 0x1000000"
    by (simp_all add: example_defs)
  from StartReplication_at_quorum_vote [OF h1 h2 h3 h4 h5 h6 h7 h8 h9 h10] show ?thesis
    unfolding t by simp
qed

text \<open>
  An instance for the quorum position over time: three safekeepers, quorum 2; two are
  connected, at position \<open>0x1FFFFFFFF\<close>, and have been sent a message; the third is
  offline, at 0. Safekeeper 0 acknowledges the larger position \<open>0x200000000\<close>, and the
  first four of its eight bytes arrive. They replace the low
  half of \<open>ackPos\<close>, which now reads \<open>0x100000000\<close>: the quorum position falls from
  \<open>0x1FFFFFFFF\<close> to \<open>0x100000000\<close>. (On a big-endian host the first four bytes replace
  the high half, \<open>ackPos\<close> overshoots to \<open>0x2FFFFFFFF\<close> and falls when the rest arrives.)
\<close>

theorem quorum_lsn_drops_on_partial_ack:
  "iteration example_layout
     (FromSafekeepers (\<lambda>i. if i = 0 then example_read [0,0,0,0] else example_io))
     (example_proxy [example_safekeeper SS_RECV_ACK 0x1FFFFFFFF None,
                     example_safekeeper SS_RECV_ACK 0x1FFFFFFFF None,
                     example_safekeeper SS_OFFLINE 0 None] 2 [Some (example_message 0)] [0])
   = Inr (example_proxy [(example_safekeeper SS_RECV_ACK 0x100000000 None)\<lparr>asyncOffs := 4\<rparr>,
                     example_safekeeper SS_RECV_ACK 0x1FFFFFFFF None,
                     example_safekeeper SS_OFFLINE 0 None] 2 [Some (example_message 0)] [0])
   \<and> GetAcknowledgedWALPosition [0x1FFFFFFFF, 0x1FFFFFFFF, 0] 2 = Some 0x1FFFFFFFF
   \<and> GetAcknowledgedWALPosition [0x100000000, 0x1FFFFFFFF, 0] 2 = Some 0x100000000
   \<and> store_bytes 0x1FFFFFFFF 0 (le_bytes 0x200000000) = 0x200000000"
  by (simp add: iteration_def visit_def ReadSocketAsync_def recv_ack_def upt_rec
       GetAcknowledgedWALPosition_def qsort_def CompareLsn_def
       Let_def example_defs of_le_bytes_def le_bytes_unfold store_bytes_def)

text \<open>
  C4, as amended. Over a run of the loop, from any state, the quorum position does not
  decrease, provided that every handshake record that completes along the run (with the
  expected protocol version) carries a \<open>walEnd\<close> not below the session's \<open>ackPos\<close> at
  that time, and that every read in \<open>SS_RECV_ACK\<close> delivers no byte or the whole
  acknowledgement (all eight bytes at offset 0) with a value not below the \<open>ackPos\<close> at
  that time. Nothing else changes an \<open>ackPos\<close> (\<open>visit_ackPos\<close>,
  \<open>ackPos_BroadcastMessage\<close>). In a run from the initial state the read that completes
  an acknowledgement ends the run, \<open>currMsg\<close> being null in every session
  (\<open>never_acknowledged\<close>); there the second condition comes to this: no byte of an
  acknowledgement is read.
\<close>

theorem quorum_lsn_nondecreasing:
  assumes "BroadcastWalStream K es s = Inr s'"
      and "run_nondecreasing K es s"
      and "GetAcknowledgedWALPosition (ackPos_all s) (quorum s) = Some v"
  shows "\<exists>v'. GetAcknowledgedWALPosition (ackPos_all s') (quorum s') = Some v' \<and> v \<le> v'"
proof -
  from BroadcastWalStream_ackPos_ge [OF assms(1,2)]
  have a: "list_all2 (\<le>) (ackPos_all s) (ackPos_all s')" and q: "quorum s' = quorum s"
    by simp_all
  from GetAcknowledgedWALPosition_mono [OF a assms(3)] q show ?thesis by simp
qed

text \<open>
  An instance, a run from the initial state with three safekeepers and quorum 2. All
  three complete the handshake at \<open>0x5000000\<close>. Then the connections of safekeepers 0
  and 1 fail and are established anew, and both complete the handshake at
  \<open>0x6000000\<close>. The quorum position goes from \<open>0x5000000\<close> to \<open>0x6000000\<close>.
\<close>

theorem quorum_lsn_nondecreasing_witness:
  "\<exists>s1 s2 v'.
     BroadcastWalStream example_layout [FromSafekeepers (\<lambda>i. example_handshake 0x5000000)]
       (example_initial 3 2) = Inr s1
     \<and> GetAcknowledgedWALPosition (ackPos_all s1) (quorum s1) = Some 0x5000000
     \<and> BroadcastWalStream example_layout
         [FromSafekeepers (\<lambda>i. if i < 2 then example_lost else example_io),
          FromSafekeepers (\<lambda>i. if i < 2 then example_handshake 0x6000000 else example_io)] s1 = Inr s2
     \<and> ackPos_all s2 = [0x6000000, 0x6000000, 0x5000000]
     \<and> GetAcknowledgedWALPosition (ackPos_all s2) (quorum s2) = Some v' \<and> 0x5000000 \<le> v'"
proof -
  let ?es = "[FromSafekeepers (\<lambda>i. if i < 2 then example_lost else example_io),
          FromSafekeepers (\<lambda>i. if i < 2 then example_handshake 0x6000000 else example_io)]"
  have "\<exists>s1 s2.
     BroadcastWalStream example_layout [FromSafekeepers (\<lambda>i. example_handshake 0x5000000)]
       (example_initial 3 2) = Inr s1
     \<and> GetAcknowledgedWALPosition (ackPos_all s1) (quorum s1) = Some 0x5000000
     \<and> BroadcastWalStream example_layout ?es s1 = Inr s2
     \<and> ackPos_all s2 = [0x6000000, 0x6000000, 0x5000000]
     \<and> run_nondecreasing example_layout ?es s1"
    by (simp add: run_defs delivers_nondecreasing_def numeral_3_eq_3)
  then obtain s1 s2 where
      h0: "BroadcastWalStream example_layout [FromSafekeepers (\<lambda>i. example_handshake 0x5000000)]
       (example_initial 3 2) = Inr s1"
    and h3: "GetAcknowledgedWALPosition (ackPos_all s1) (quorum s1) = Some 0x5000000"
    and h1: "BroadcastWalStream example_layout ?es s1 = Inr s2"
    and a: "ackPos_all s2 = [0x6000000, 0x6000000, 0x5000000]"
    and h2: "run_nondecreasing example_layout ?es s1"
    by blast
  from quorum_lsn_nondecreasing [OF h1 h2 h3] h0 h3 h1 a show ?thesis
    by blast
qed



text \<open>
  C6. With a quorum between 1 and \<open>n_safekeepers\<close>, at most 30 safekeepers and a queue
  of distinct live messages, \<open>HandleSafekeeperResponse\<close> returns, and it calls
  \<open>SendFeedback\<close> if and only if the quorum position is above \<open>lastAckPos\<close>; the
  position sent is the quorum position, becomes \<open>lastAckPos\<close> and is strictly above
  every position sent before, and the function returns what \<open>SendFeedback\<close> returned.
  Otherwise nothing is sent and \<open>lastAckPos\<close> stays. The frame has 34 bytes: the
  character r, the position as write and as flush position, the invalid position as
  apply position, the time, and 0 for \<open>replyRequested\<close>. That no position sent is above
  \<open>lastAckPos\<close> holds before any feedback and is kept by every step of the loop
  (\<open>BroadcastWalStream_increasing\<close>).
\<close>

theorem HandleSafekeeperResponse_feedback:
  assumes "1 \<le> quorum s" and "quorum s \<le> int (length (safekeeper s))"
      and "length (safekeeper s) \<le> 30"
      and "distinct (msgQueue s)"
      and "list_all (\<lambda>a. deref (heap s) (Some a) \<noteq> None) (msgQueue s)"
      and "list_all (\<lambda>l. l \<le> lastAckPos s) (feedback_lsns (to_primary s))"
  shows "\<exists>lsn ok s'.
           GetAcknowledgedWALPosition (ackPos_all s) (quorum s) = Some lsn
         \<and> HandleSafekeeperResponse now sent s = Inr (ok, s')
         \<and> (if lsn > lastAckPos s
            then to_primary s' = to_primary s @ [Feedback lsn now False] \<and> lastAckPos s' = lsn
                 \<and> list_all (\<lambda>l. l < lsn) (feedback_lsns (to_primary s)) \<and> ok = sent
            else to_primary s' = to_primary s \<and> lastAckPos s' = lastAckPos s \<and> ok)
         \<and> list_all (\<lambda>l. l \<le> lastAckPos s') (feedback_lsns (to_primary s'))
         \<and> length (replybuf lsn now False) = 34 \<and> hd (replybuf lsn now False) = 0x72
         \<and> fe_recvint64 (drop 1 (replybuf lsn now False)) = lsn
         \<and> fe_recvint64 (drop 9 (replybuf lsn now False)) = lsn
         \<and> fe_recvint64 (drop 17 (replybuf lsn now False)) = InvalidXLogRecPtr
         \<and> last (replybuf lsn now False) = 0"
proof -
  from assms(1,2) obtain lsn where g: "GetAcknowledgedWALPosition (ackPos_all s) (quorum s) = Some lsn"
    by (auto simp: GetAcknowledgedWALPosition_def Let_def ackPos_all_def)
  from cleanup_total [OF assms(3,4,5)] obtain h' q' where
      c: "cleanup (length (safekeeper s)) (heap s) (msgQueue s) = Inr (h', q')"
    by blast
  have mono: "list_all (\<lambda>l. l < lsn) (feedback_lsns (to_primary s))
      \<and> list_all (\<lambda>l. l \<le> lsn) (feedback_lsns (to_primary s))" if "lsn > lastAckPos s"
    using that assms(6) by (auto simp: list_all_iff)
  obtain ok s' where r: "HandleSafekeeperResponse now sent s = Inr (ok, s')"
    and st: "(if lsn > lastAckPos s
          then to_primary s' = to_primary s @ [Feedback lsn now False] \<and> lastAckPos s' = lsn \<and> ok = sent
          else to_primary s' = to_primary s \<and> lastAckPos s' = lastAckPos s \<and> ok)"
  proof (cases "lsn > lastAckPos s")
    case True
    with g c that [of sent "if sent then s\<lparr>lastAckPos := lsn,
                           to_primary := to_primary s @ [Feedback lsn now False],
                           heap := h', msgQueue := q'\<rparr>
                     else s\<lparr>lastAckPos := lsn,
                           to_primary := to_primary s @ [Feedback lsn now False]\<rparr>"]
    show ?thesis by (simp add: HandleSafekeeperResponse_def Let_def)
  next
    case False
    with g c that [of True "s\<lparr>heap := h', msgQueue := q'\<rparr>"]
    show ?thesis by (simp add: HandleSafekeeperResponse_def Let_def)
  qed
  have "(if lsn > lastAckPos s
            then to_primary s' = to_primary s @ [Feedback lsn now False] \<and> lastAckPos s' = lsn
                 \<and> list_all (\<lambda>l. l < lsn) (feedback_lsns (to_primary s)) \<and> ok = sent
            else to_primary s' = to_primary s \<and> lastAckPos s' = lastAckPos s \<and> ok)
         \<and> list_all (\<lambda>l. l \<le> lastAckPos s') (feedback_lsns (to_primary s'))
         \<and> length (replybuf lsn now False) = 34 \<and> hd (replybuf lsn now False) = 0x72
         \<and> fe_recvint64 (drop 1 (replybuf lsn now False)) = lsn
         \<and> fe_recvint64 (drop 9 (replybuf lsn now False)) = lsn
         \<and> fe_recvint64 (drop 17 (replybuf lsn now False)) = InvalidXLogRecPtr
         \<and> last (replybuf lsn now False) = 0"
    using st mono assms(6) replybuf_fields [of lsn now False]
    by (auto simp: feedback_lsns_append)
  with g r show ?thesis by blast
qed

text \<open>
  An instance: feedback 100 was sent, two of three safekeepers have reached 104, one
  message is queued.
\<close>

theorem HandleSafekeeperResponse_feedback_witness:
  "\<exists>ok s'.
     HandleSafekeeperResponse 7 True
       ((example_proxy [example_safekeeper SS_IDLE 104 None, example_safekeeper SS_IDLE 104 None,
                        example_safekeeper SS_RECV_ACK 100 None] 2 [Some (example_message 3)] [0])
          \<lparr>lastAckPos := 100, to_primary := [Feedback 100 0 False]\<rparr>) = Inr (ok, s')
     \<and> ok
     \<and> to_primary s' = [Feedback 100 0 False] @ [Feedback 104 7 False]
     \<and> lastAckPos s' = 104
     \<and> list_all (\<lambda>l. l < 104) (feedback_lsns [Feedback 100 0 False])
     \<and> length (replybuf 104 7 False) = 34
     \<and> fe_recvint64 (drop 1 (replybuf 104 7 False)) = 104
     \<and> fe_recvint64 (drop 9 (replybuf 104 7 False)) = 104"
proof -
  let ?s = "(example_proxy [example_safekeeper SS_IDLE 104 None, example_safekeeper SS_IDLE 104 None,
                        example_safekeeper SS_RECV_ACK 100 None] 2 [Some (example_message 3)] [0])
          \<lparr>lastAckPos := 100, to_primary := [Feedback 100 0 False]\<rparr>"
  have h1: "1 \<le> quorum ?s" and h2: "quorum ?s \<le> int (length (safekeeper ?s))"
    and h3: "length (safekeeper ?s) \<le> 30" and h4: "distinct (msgQueue ?s)"
    and h5: "list_all (\<lambda>a. deref (heap ?s) (Some a) \<noteq> None) (msgQueue ?s)"
    and h6: "list_all (\<lambda>l. l \<le> lastAckPos ?s) (feedback_lsns (to_primary ?s))"
    by (simp_all add: example_defs deref_def)
  have g: "GetAcknowledgedWALPosition (ackPos_all ?s) (quorum ?s) = Some 104"
    by (simp add: example_defs GetAcknowledgedWALPosition_def qsort_def CompareLsn_def ackPos_all_def)
  have t: "lastAckPos ?s = 100" "to_primary ?s = [Feedback 100 0 False]"
    by (simp_all add: example_defs)
  from HandleSafekeeperResponse_feedback [OF h1 h2 h3 h4 h5 h6, of 7 True]
  show ?thesis
    unfolding g t by auto
qed

text \<open>
  C7. The claim: \<open>currMsg\<close> is set to the message whenever a message is handed to a
  safekeeper, and cleared only after its acknowledgement. No statement of the proxy
  assigns \<open>currMsg\<close> (\<open>iteration_currMsg\<close>). A WAL frame arrives while the one
  safekeeper is idle: the whole message is written to it, it goes to \<open>SS_RECV_ACK\<close>, and
  its \<open>currMsg\<close> is still the null pointer; when its acknowledgement has arrived the
  proxy sets a bit through that pointer.
\<close>

theorem BroadcastMessage_leaves_currMsg:
  "from_server example_layout (CopyRow example_frame) (\<lambda>i. Some 29) (\<lambda>i. [])
     (example_proxy [example_safekeeper SS_IDLE 100 None] 1 [] [])
   = Inr (example_proxy [example_safekeeper SS_RECV_ACK 100 None] 1 [Some (example_message 0)] [0])
   \<and> visit example_layout (example_read [104,0,0,0,0,0,0,0]) 0
        (example_proxy [example_safekeeper SS_RECV_ACK 100 None] 1 [Some (example_message 0)] [0])
      = Inl Undefined"
  by (simp add: from_server_def visit_def ReadSocketAsync_def recv_ack_def BroadcastMessage_def Let_def example_defs
       fe_recvint64_def fe_sendint64_def of_le_bytes_def le_bytes_unfold store_bytes_def)

text \<open>
  C10. A WAL message arrives while safekeeper \<open>i\<close> is not in \<open>SS_IDLE\<close> (there being
  between 1 and 30 safekeepers, each \<open>currMsg\<close> null or the address of a message
  allocated before). Then the message is appended to the queue and nothing is sent to
  safekeeper \<open>i\<close>, and after any further events of the loop the message is still in the
  queue with bit \<open>i\<close> of its \<open>ackMask\<close> clear.
\<close>

theorem no_catch_up:
  assumes "list_all (\<lambda>sk. case currMsg sk of None \<Rightarrow> True | Some a \<Rightarrow> a < length (heap s)) (safekeeper s)"
      and "1 \<le> length (safekeeper s)" and "length (safekeeper s) \<le> 30"
      and "i < length (safekeeper s)" and "state (safekeeper s ! i) \<noteq> SS_IDLE"
      and "copybuf \<noteq> []" and "hd copybuf = 0x77"
      and "from_server K (CopyRow copybuf) w r s = Inr s1"
      and "BroadcastWalStream K es s1 = Inr s2"
  shows "msgQueue s1 = msgQueue s @ [length (heap s)]
         \<and> safekeeper s1 ! i = safekeeper s ! i
         \<and> length (heap s) \<in> set (msgQueue s2)
         \<and> (\<exists>m. deref (heap s2) (Some (length (heap s))) = Some m \<and> \<not> bit (ackMask m) i)"
proof -
  let ?a = "length (heap s)"
  from assms(6,7,8) obtain m where h: "heap s1 = heap s @ [Some m]" and q: "msgQueue s1 = msgQueue s @ [?a]"
    and m: "ackMask m = 0" and sk: "safekeeper s1 = BroadcastMessage w r m (safekeeper s)"
    by (auto simp: from_server_def Let_def split: if_splits)
  have i: "safekeeper s1 ! i = safekeeper s ! i"
    using assms(4,5) by (simp add: sk BroadcastMessage_not_idle)
  have nc: "Some ?a \<notin> set (map currMsg (safekeeper s))"
  proof
    assume "Some ?a \<in> set (map currMsg (safekeeper s))"
    then obtain sk where "sk \<in> set (safekeeper s)" "currMsg sk = Some ?a" by auto
    with assms(1) show False by (auto simp: list_all_iff split: option.splits)
  qed
  have "unacked ?a s1"
    using nc m by (simp add: unacked_def h q sk deref_def)
  moreover have "length (safekeeper s1) = length (safekeeper s)"
    by (simp add: sk)
  ultimately have "unacked ?a s2"
    using BroadcastWalStream_unacked [OF assms(9)] assms(2,3) by simp
  then have "?a \<in> set (msgQueue s2) \<and> (\<exists>m. deref (heap s2) (Some ?a) = Some m \<and> \<not> bit (ackMask m) i)"
    by (auto simp: unacked_def split: option.splits)
  with q i show ?thesis by simp
qed

text \<open>
  An instance: safekeeper 1 is waiting for the verdict when the frame arrives; its
  verdict arrives next and it becomes idle; the message stays queued, bit 1 clear.
\<close>

theorem no_catch_up_witness:
  "msgQueue (example_proxy [example_safekeeper SS_RECV_ACK 100 None, example_safekeeper SS_WAIT_VERDICT 100 None]
               2 [Some (example_message 0)] [0]) = [] @ [0]
   \<and> state (safekeeper ((example_proxy [example_safekeeper SS_RECV_ACK 100 None,
                  (example_safekeeper SS_IDLE 100 None)\<lparr>asyncOffs := 24\<rparr>]
               2 [Some (example_message 0)] [0])\<lparr>n_votes := 3\<rparr>) ! 1) = SS_IDLE
   \<and> 0 \<in> set (msgQueue ((example_proxy [example_safekeeper SS_RECV_ACK 100 None,
                  (example_safekeeper SS_IDLE 100 None)\<lparr>asyncOffs := 24\<rparr>]
               2 [Some (example_message 0)] [0])\<lparr>n_votes := 3\<rparr>))
   \<and> (\<exists>m. deref (heap ((example_proxy [example_safekeeper SS_RECV_ACK 100 None,
                  (example_safekeeper SS_IDLE 100 None)\<lparr>asyncOffs := 24\<rparr>]
               2 [Some (example_message 0)] [0])\<lparr>n_votes := 3\<rparr>)) (Some 0) = Some m
          \<and> \<not> bit (ackMask m) 1)"
proof -
  let ?s = "example_proxy [example_safekeeper SS_IDLE 100 None, example_safekeeper SS_WAIT_VERDICT 100 None] 2 [] []"
  let ?s1 = "example_proxy [example_safekeeper SS_RECV_ACK 100 None, example_safekeeper SS_WAIT_VERDICT 100 None]
               2 [Some (example_message 0)] [0]"
  let ?s2 = "(example_proxy [example_safekeeper SS_RECV_ACK 100 None,
                  (example_safekeeper SS_IDLE 100 None)\<lparr>asyncOffs := 24\<rparr>]
               2 [Some (example_message 0)] [0])\<lparr>n_votes := 3\<rparr>"
  let ?es = "[FromSafekeepers (\<lambda>j. if j = 1 then example_read (replicate 24 0) else example_io)]"
  have h1: "list_all (\<lambda>sk. case currMsg sk of None \<Rightarrow> True | Some a \<Rightarrow> a < length (heap ?s)) (safekeeper ?s)"
    by (simp add: example_defs)
  have h2: "1 \<le> length (safekeeper ?s)" and h3: "length (safekeeper ?s) \<le> 30"
    and h4: "1 < length (safekeeper ?s)" and h5: "state (safekeeper ?s ! 1) \<noteq> SS_IDLE"
    by (simp_all add: example_defs)
  have h6: "example_frame \<noteq> []" and h7: "hd example_frame = 0x77"
    by (simp_all add: example_defs)
  have h8: "from_server example_layout (CopyRow example_frame) (\<lambda>i. Some 29) (\<lambda>i. []) ?s = Inr ?s1"
    by (simp add: from_server_def BroadcastMessage_def Let_def example_defs
       fe_recvint64_def fe_sendint64_def of_le_bytes_def le_bytes_unfold)
  have h9: "BroadcastWalStream example_layout ?es ?s1 = Inr ?s2"
    by (simp add: iteration_def visit_def ReadSocketAsync_def wait_verdict_def upt_rec CompareNodeId_equal_terms
       Let_def example_defs)
  have t: "msgQueue ?s = []" "length (heap ?s) = 0"
    by (simp_all add: example_defs)
  have i: "state (safekeeper ?s2 ! 1) = SS_IDLE"
    by (simp add: example_defs)
  from no_catch_up [OF h1 h2 h3 h4 h5 h6 h7 h8 h9] i show ?thesis
    unfolding t by simp
qed

end
